theory Spec2Isabelle
  imports Complex_Main "HOL-Library.Word"
begin

unbundle bit_operations_syntax

section \<open>Machine types and VPP primitives\<close>

text \<open>
  The plugin is C on VPP.  Fixed-width integers are words, so that \<open>+\<close> wraps as in C.
  \<open>f64\<close> clock readings and token counts are reals and their arithmetic is exact: the
  rounding of double arithmetic is not modelled, and what is proved of the token bucket
  below is proved at values where the two agree (whole numbers of bytes and seconds).
  A VPP vector is a list, a VPP hash (\<open>hash_get\<close>, \<open>hash_set\<close>) is a partial map from
  the 64-bit key to the stored index.

  Struct fields keep their C names behind a short prefix naming the struct
  (\<open>pol_\<close> for \<open>opensase_policy_t\<close>, \<open>s_\<close> for \<open>opensase_session_t\<close>, \<open>op_\<close> for
  \<open>opensase_buffer_opaque_t\<close>, \<open>m_\<close> for \<open>nat_mapping_t\<close> and so on), since several
  structs share field names.

  Header fields hold the value the C code reads from memory on a little-endian host:
  multi-byte fields are in network byte order and go through
  \<open>clib_net_to_host_u16\<close> / \<open>clib_host_to_net_u32\<close>, which reverse the bytes.
  \<open>clib_xxhash\<close> is VPP's and not part of the repository; every function that hashes
  takes it as the parameter \<open>xxh\<close>, and nothing proved below depends on which function
  it is.
\<close>

type_synonym u8 = "8 word"
type_synonym u16 = "16 word"
type_synonym u32 = "32 word"
type_synonym u64 = "64 word"
type_synonym f64 = real

definition clib_byte_swap_u16 :: "u16 \<Rightarrow> u16" where
  "clib_byte_swap_u16 x = push_bit 8 x OR drop_bit 8 x"

definition clib_byte_swap_u32 :: "u32 \<Rightarrow> u32" where
  "clib_byte_swap_u32 x =
     push_bit 24 x OR push_bit 8 (x AND 0xff00) OR (drop_bit 8 x AND 0xff00) OR drop_bit 24 x"

definition clib_net_to_host_u16 :: "u16 \<Rightarrow> u16" where
  "clib_net_to_host_u16 = clib_byte_swap_u16"

definition clib_host_to_net_u16 :: "u16 \<Rightarrow> u16" where
  "clib_host_to_net_u16 = clib_byte_swap_u16"

definition clib_host_to_net_u32 :: "u32 \<Rightarrow> u32" where
  "clib_host_to_net_u32 = clib_byte_swap_u32"

definition clib_net_to_host_u32 :: "u32 \<Rightarrow> u32" where
  "clib_net_to_host_u32 = clib_byte_swap_u32"

text \<open>The address \<open>a.b.c.d\<close> as \<open>ip4_address_t.as_u32\<close> holds it (first byte lowest).\<close>

definition ip4_addr :: "u32 \<Rightarrow> u32 \<Rightarrow> u32 \<Rightarrow> u32 \<Rightarrow> u32" where
  "ip4_addr a b c d = a OR push_bit 8 b OR push_bit 16 c OR push_bit 24 d"

definition IP_PROTOCOL_TCP :: u8 where "IP_PROTOCOL_TCP = 6"
definition IP_PROTOCOL_UDP :: u8 where "IP_PROTOCOL_UDP = 17"

record ip4_header =
  ip_version_and_header_length :: u8
  tos :: u8
  ip_length :: u16
  fragment_id :: u16
  flags_and_fragment_offset :: u16
  ttl :: u8
  protocol :: u8
  checksum :: u16
  src_address :: u32
  dst_address :: u32

text \<open>
  \<open>ip4_header_checksum\<close> (\<open>ip4_header_checksum_inline\<close>) is VPP's and not part of the
  repository.  It is the IPv4 header checksum of RFC 791 for a header without options:
  the complement of the one's-complement sum of the header's 16-bit words, the checksum
  field itself counted as zero.  The words are summed as the host reads them, the way
  VPP does; the sum of nine 16-bit words needs two folds.
\<close>

definition ip_csum_fold :: "u32 \<Rightarrow> u16" where
  "ip_csum_fold s =
     (let s1 = (s AND 0xffff) + drop_bit 16 s;
          s2 = (s1 AND 0xffff) + drop_bit 16 s1
      in ucast s2)"

definition ip4_header_words :: "ip4_header \<Rightarrow> u32 list" where
  "ip4_header_words ip4 =
     [ucast (ip_version_and_header_length ip4) OR push_bit 8 (ucast (tos ip4)),
      ucast (ip_length ip4),
      ucast (fragment_id ip4),
      ucast (flags_and_fragment_offset ip4),
      ucast (ttl ip4) OR push_bit 8 (ucast (protocol ip4)),
      src_address ip4 AND 0xffff, drop_bit 16 (src_address ip4),
      dst_address ip4 AND 0xffff, drop_bit 16 (dst_address ip4)]"

definition ip4_header_checksum :: "ip4_header \<Rightarrow> u16" where
  "ip4_header_checksum ip4 = NOT (ip_csum_fold (sum_list (ip4_header_words ip4)))"

subsection \<open>Per-packet metadata and buffers (opensase.h)\<close>

definition OPENSASE_QOS_REALTIME :: u8 where "OPENSASE_QOS_REALTIME = 0"
definition OPENSASE_QOS_BUSINESS_CRITICAL :: u8 where "OPENSASE_QOS_BUSINESS_CRITICAL = 1"
definition OPENSASE_QOS_DEFAULT :: u8 where "OPENSASE_QOS_DEFAULT = 2"
definition OPENSASE_QOS_BULK :: u8 where "OPENSASE_QOS_BULK = 3"
definition OPENSASE_QOS_SCAVENGER :: u8 where "OPENSASE_QOS_SCAVENGER = 4"
definition OPENSASE_QOS_N_CLASSES :: u8 where "OPENSASE_QOS_N_CLASSES = 5"

definition OPENSASE_ACTION_ALLOW :: u8 where "OPENSASE_ACTION_ALLOW = 0"
definition OPENSASE_ACTION_DENY :: u8 where "OPENSASE_ACTION_DENY = 1"
definition OPENSASE_ACTION_LOG :: u8 where "OPENSASE_ACTION_LOG = 2"
definition OPENSASE_ACTION_RATE_LIMIT :: u8 where "OPENSASE_ACTION_RATE_LIMIT = 3"
definition OPENSASE_ACTION_REDIRECT :: u8 where "OPENSASE_ACTION_REDIRECT = 4"
definition OPENSASE_ACTION_ENCRYPT :: u8 where "OPENSASE_ACTION_ENCRYPT = 5"
definition OPENSASE_ACTION_INSPECT_DLP :: u8 where "OPENSASE_ACTION_INSPECT_DLP = 6"

definition OPENSASE_SESSION_NEW :: u8 where "OPENSASE_SESSION_NEW = 0"
definition OPENSASE_SESSION_ESTABLISHED :: u8 where "OPENSASE_SESSION_ESTABLISHED = 1"
definition OPENSASE_SESSION_CLOSING :: u8 where "OPENSASE_SESSION_CLOSING = 2"
definition OPENSASE_SESSION_CLOSED :: u8 where "OPENSASE_SESSION_CLOSED = 3"

definition OPENSASE_FLAG_RATE_LIMITED :: u8 where "OPENSASE_FLAG_RATE_LIMITED = push_bit 3 1"

record opensase_buffer_opaque =
  op_tenant_id :: u32
  op_policy_id :: u32
  op_app_id :: u16
  op_qos_class :: u8
  op_flags :: u8
  op_session_idx :: u32

text \<open>
  A buffer as the nodes see it: the IPv4 header at the current data pointer, the two
  16-bit words that follow it (\<open>ports[0]\<close>, \<open>ports[1]\<close>, in network byte order), the
  TCP or UDP checksum field, the TCP flags byte (no node reads it; it is there so that
  a FIN or RST packet can be written down), the metadata in \<open>opaque2\<close> and \<open>vlib_buffer_length_in_chain\<close>.
\<close>

record vlib_buffer =
  b_ip4 :: ip4_header
  b_ports0 :: u16
  b_ports1 :: u16
  b_l4_checksum :: u16
  b_tcp_flags :: u8
  b_opaque2 :: opensase_buffer_opaque
  b_length_in_chain :: u32

section \<open>QoS node (node_qos.c)\<close>

definition qos_to_dscp :: "u8 list" where
  "qos_to_dscp = [46, 26, 0, 10, 8]"

text \<open>
  \<open>apply_dscp\<close>: when the ToS byte changes, the checksum is computed from the header as
  it is at that point, and only then is the new ToS byte stored.
\<close>

definition apply_dscp :: "ip4_header \<Rightarrow> u8 \<Rightarrow> ip4_header" where
  "apply_dscp ip4 qos_class =
     (let dscp = (if qos_class < OPENSASE_QOS_N_CLASSES then qos_to_dscp ! unat qos_class else 0);
          old_tos = tos ip4;
          new_tos = push_bit 2 dscp OR (old_tos AND 0x03)
      in if old_tos \<noteq> new_tos
         then (ip4\<lparr>checksum := ip4_header_checksum ip4\<rparr>)\<lparr>tos := new_tos\<rparr>
         else ip4)"

text \<open>
  The token buckets, \<open>tenant_limiters[MAX_TENANT_LIMITERS][OPENSASE_QOS_N_CLASSES]\<close>:
  a table indexed by tenant and class.
\<close>

record token_bucket =
  tokens :: f64
  last_update :: f64
  rate_bps :: f64
  burst_bytes :: f64

type_synonym tenant_limiters = "nat \<Rightarrow> nat \<Rightarrow> token_bucket"

definition MAX_TENANT_LIMITERS :: u32 where "MAX_TENANT_LIMITERS = 1024"

definition init_rate_limiter :: "token_bucket \<Rightarrow> f64 \<Rightarrow> token_bucket" where
  "init_rate_limiter tb rate_mbps =
     (let tb1 = tb\<lparr>rate_bps := rate_mbps * 1000000 / 8\<rparr>;
          tb2 = tb1\<lparr>burst_bytes := rate_bps tb1 * (1 / 10)\<rparr>;
          tb3 = tb2\<lparr>tokens := burst_bytes tb2\<rparr>
      in tb3\<lparr>last_update := 0\<rparr>)"

text \<open>\<open>rate_limit_check\<close> returns the verdict (1 = allow) and the bucket as it leaves it.\<close>

definition rate_limit_check :: "token_bucket \<Rightarrow> u32 \<Rightarrow> f64 \<Rightarrow> bool \<times> token_bucket" where
  "rate_limit_check tb packet_bytes now =
     (let tb1 = (if last_update tb > 0
                 then (let elapsed = now - last_update tb;
                           tbr = tb\<lparr>tokens := tokens tb + elapsed * rate_bps tb\<rparr>
                       in if tokens tbr > burst_bytes tbr
                          then tbr\<lparr>tokens := burst_bytes tbr\<rparr> else tbr)
                 else tb);
          tb2 = tb1\<lparr>last_update := now\<rparr>
      in if tokens tb2 \<ge> real (unat packet_bytes)
         then (True, tb2\<lparr>tokens := tokens tb2 - real (unat packet_bytes)\<rparr>)
         else (False, tb2))"

subsection \<open>Sessions, policies, worker and plugin state (opensase.h)\<close>

record opensase_session =
  s_src_addr :: u32
  s_dst_addr :: u32
  s_src_port :: u16
  s_dst_port :: u16
  s_protocol :: u8
  s_state :: u8
  s_qos_class :: u8
  s_pad0 :: u8
  s_tenant_id :: u32
  s_policy_id :: u32
  s_packets_fwd :: u64
  s_bytes_fwd :: u64
  s_packets_rev :: u64
  s_bytes_rev :: u64
  s_last_active :: f64

record opensase_policy =
  pol_policy_id :: u32
  pol_priority :: u32
  pol_tenant_id :: u32
  pol_src_prefix :: u32
  pol_dst_prefix :: u32
  pol_src_prefix_len :: u8
  pol_dst_prefix_len :: u8
  pol_src_port_min :: u16
  pol_src_port_max :: u16
  pol_dst_port_min :: u16
  pol_dst_port_max :: u16
  pol_protocol :: u8
  pol_action :: u8
  pol_qos_class :: u8
  pol_log_enabled :: u8
  pol_rate_limit_kbps :: u32

text \<open>
  \<open>n_sessions\<close> and session indices are natural numbers: \<open>n_sessions\<close> is only ever
  incremented below \<open>vec_len (sessions)\<close>, so the 32-bit counter cannot wrap.
  \<open>policy_hits\<close> has \<open>OPENSASE_ACTION_N_ACTIONS = 7\<close> slots.
\<close>

record opensase_worker =
  sessions :: "opensase_session list"
  n_sessions :: nat
  session_hash :: "u64 \<rightharpoonup> nat"
  packets_processed :: u64
  bytes_processed :: u64
  packets_dropped :: u64
  sessions_created :: u64
  sessions_expired :: u64
  policy_hits :: "u64 list"
  dlp_patterns_matched :: u64
  dlp_bytes_inspected :: u64

record opensase_main =
  policies :: "opensase_policy list"
  n_policies :: u32
  session_timeout_secs :: u32
  max_sessions_per_worker :: u32
  dlp_enabled :: u8
  logging_enabled :: u8

subsection \<open>The QoS node function\<close>

datatype opensase_qos_next =
  OPENSASE_QOS_NEXT_IP4_LOOKUP | OPENSASE_QOS_NEXT_WIREGUARD | OPENSASE_QOS_NEXT_DROP

definition qos_mark :: "vlib_buffer \<Rightarrow> vlib_buffer" where
  "qos_mark b = b\<lparr>b_ip4 := apply_dscp (b_ip4 b) (op_qos_class (b_opaque2 b))\<rparr>"

text \<open>
  The four-packet body of the node: all four packets are marked and counted, and the
  scavenger bucket is consulted for the first packet of the four only.
  \<open>rate_limit_check\<close> runs (and updates the bucket) only when \<open>rate_bps > 0\<close>.
\<close>

definition qos_quad ::
  "f64 \<Rightarrow> opensase_worker \<Rightarrow> tenant_limiters \<Rightarrow> vlib_buffer \<Rightarrow> vlib_buffer \<Rightarrow> vlib_buffer
     \<Rightarrow> vlib_buffer \<Rightarrow> (vlib_buffer \<times> opensase_qos_next) list \<times> opensase_worker \<times> tenant_limiters"
where
  "qos_quad now w lims b0 b1 b2 b3 =
     (let c0 = qos_mark b0; c1 = qos_mark b1; c2 = qos_mark b2; c3 = qos_mark b3;
          pkt_len0 = b_length_in_chain b0;
          w1 = w\<lparr>bytes_processed := bytes_processed w +
                 ucast (pkt_len0 + b_length_in_chain b1 + b_length_in_chain b2
                        + b_length_in_chain b3)\<rparr>;
          rest = [(c1, OPENSASE_QOS_NEXT_IP4_LOOKUP), (c2, OPENSASE_QOS_NEXT_IP4_LOOKUP),
                  (c3, OPENSASE_QOS_NEXT_IP4_LOOKUP)];
          op0 = b_opaque2 c0
      in if op_qos_class op0 = OPENSASE_QOS_SCAVENGER
         then (let tenant_idx = unat (op_tenant_id op0 mod MAX_TENANT_LIMITERS);
                   tb = lims tenant_idx (unat OPENSASE_QOS_SCAVENGER)
               in if rate_bps tb > 0
                  then (let (allow, tb') = rate_limit_check tb pkt_len0 now;
                            lims' = lims(tenant_idx := (lims tenant_idx)(unat OPENSASE_QOS_SCAVENGER := tb'))
                        in if \<not> allow
                           then ((c0\<lparr>b_opaque2 := op0\<lparr>op_flags := op_flags op0 OR
                                                     OPENSASE_FLAG_RATE_LIMITED\<rparr>\<rparr>,
                                  OPENSASE_QOS_NEXT_DROP) # rest,
                                 w1\<lparr>packets_dropped := packets_dropped w1 + 1\<rparr>, lims')
                           else ((c0, OPENSASE_QOS_NEXT_IP4_LOOKUP) # rest, w1, lims'))
                  else ((c0, OPENSASE_QOS_NEXT_IP4_LOOKUP) # rest, w1, lims))
         else ((c0, OPENSASE_QOS_NEXT_IP4_LOOKUP) # rest, w1, lims))"

text \<open>The one-packet body of the remainder loop: mark, count, forward.\<close>

definition qos_single ::
  "opensase_worker \<Rightarrow> vlib_buffer \<Rightarrow> (vlib_buffer \<times> opensase_qos_next) \<times> opensase_worker" where
  "qos_single w b0 =
     ((qos_mark b0, OPENSASE_QOS_NEXT_IP4_LOOKUP),
      w\<lparr>bytes_processed := bytes_processed w + ucast (b_length_in_chain b0)\<rparr>)"

text \<open>
  \<open>opensase_qos_node\<close>: \<open>while (n_left_from >= 4)\<close> takes four buffers at a time, then
  \<open>while (n_left_from > 0)\<close> takes the rest one at a time.  The result pairs every
  buffer with its \<open>next\<close> index, in frame order.
\<close>

fun opensase_qos_node ::
  "f64 \<Rightarrow> opensase_worker \<Rightarrow> tenant_limiters \<Rightarrow> vlib_buffer list
     \<Rightarrow> (vlib_buffer \<times> opensase_qos_next) list \<times> opensase_worker \<times> tenant_limiters"
where
  "opensase_qos_node now w lims (b0 # b1 # b2 # b3 # bs) =
     (let (out4, w1, lims1) = qos_quad now w lims b0 b1 b2 b3;
          (outs, w2, lims2) = opensase_qos_node now w1 lims1 bs
      in (out4 @ outs, w2, lims2))"
| "opensase_qos_node now w lims (b0 # bs) =
     (let (out1, w1) = qos_single w b0;
          (outs, w2, lims2) = opensase_qos_node now w1 lims bs
      in (out1 # outs, w2, lims2))"
| "opensase_qos_node now w lims [] = ([], w, lims)"

section \<open>Policy node (node_policy.c)\<close>

text \<open>
  \<open>u32 mask = ~0 << (32 - len)\<close> with \<open>len\<close> a \<open>u8\<close>.  For \<open>len\<close> from 1 to 32 the shift
  count runs from 31 down to 0.  For \<open>len = 0\<close> the count is 32 and for \<open>len > 32\<close> it is
  negative: C leaves both undefined, and the 32-bit shift instructions of x86-64 and
  AArch64 take the count modulo 32, which is what the model does (all ones for
  \<open>len = 0\<close>, \<open>0x80000000\<close> for \<open>len = 33\<close>).  The policy matcher computes the mask only
  for \<open>len > 0\<close>, the tenant lookup for every valid entry; nothing in the repository
  checks \<open>len \<le> 32\<close> when a policy or a tenant mapping is installed.
\<close>

definition prefix_mask :: "u8 \<Rightarrow> u32" where
  "prefix_mask len = push_bit (nat ((32 - uint len) mod 32)) (- 1)"

definition prefix_covers :: "u32 \<Rightarrow> u8 \<Rightarrow> u32 \<Rightarrow> bool" where
  "prefix_covers prefix len addr =
     (addr AND clib_host_to_net_u32 (prefix_mask len)
        = prefix AND clib_host_to_net_u32 (prefix_mask len))"

text \<open>Port extraction, as the security and the policy node do it.\<close>

definition extract_ports :: "vlib_buffer \<Rightarrow> u16 \<times> u16" where
  "extract_ports b =
     (if protocol (b_ip4 b) = IP_PROTOCOL_TCP \<or> protocol (b_ip4 b) = IP_PROTOCOL_UDP
      then (clib_net_to_host_u16 (b_ports0 b), clib_net_to_host_u16 (b_ports1 b))
      else (0, 0))"

text \<open>
  The loop body of \<open>opensase_policy_match\<close> up to the priority test: the slot test
  ("skip empty/unused policies") and the six predicate tests, each a \<open>continue\<close>.
\<close>

definition policy_slot_unused :: "opensase_policy \<Rightarrow> bool" where
  "policy_slot_unused p = (pol_policy_id p = 0 \<and> pol_priority p = 0)"

definition policy_predicates :: "opensase_policy \<Rightarrow> ip4_header \<Rightarrow> u16 \<Rightarrow> u16 \<Rightarrow> u32 \<Rightarrow> bool" where
  "policy_predicates p ip4 src_port dst_port tenant_id =
     (if pol_tenant_id p \<noteq> 0 \<and> pol_tenant_id p \<noteq> tenant_id then False
      else if pol_src_prefix_len p > 0
              \<and> \<not> prefix_covers (pol_src_prefix p) (pol_src_prefix_len p) (src_address ip4)
           then False
      else if pol_dst_prefix_len p > 0
              \<and> \<not> prefix_covers (pol_dst_prefix p) (pol_dst_prefix_len p) (dst_address ip4)
           then False
      else if pol_protocol p \<noteq> 0 \<and> pol_protocol p \<noteq> protocol ip4 then False
      else if (pol_src_port_min p \<noteq> 0 \<or> pol_src_port_max p \<noteq> 0)
              \<and> (src_port < pol_src_port_min p \<or> src_port > pol_src_port_max p)
           then False
      else if (pol_dst_port_min p \<noteq> 0 \<or> pol_dst_port_max p \<noteq> 0)
              \<and> (dst_port < pol_dst_port_min p \<or> dst_port > pol_dst_port_max p)
           then False
      else True)"

text \<open>
  The scan over the policy vector, index \<open>i\<close> upwards, carrying
  \<open>(best_match, best_priority)\<close>.  \<open>best_match\<close> is \<open>None\<close> for the C sentinel \<open>~0\<close>;
  \<open>best_priority\<close> starts at \<open>~0\<close>.
\<close>

fun policy_scan ::
  "ip4_header \<Rightarrow> u16 \<Rightarrow> u16 \<Rightarrow> u32 \<Rightarrow> opensase_policy list \<Rightarrow> nat \<Rightarrow> nat option \<times> u32
     \<Rightarrow> nat option \<times> u32"
where
  "policy_scan ip4 src_port dst_port tenant_id [] i best = best"
| "policy_scan ip4 src_port dst_port tenant_id (p # ps) i (best_match, best_priority) =
     (if policy_slot_unused p
      then policy_scan ip4 src_port dst_port tenant_id ps (Suc i) (best_match, best_priority)
      else if \<not> policy_predicates p ip4 src_port dst_port tenant_id
      then policy_scan ip4 src_port dst_port tenant_id ps (Suc i) (best_match, best_priority)
      else if pol_priority p < best_priority
      then policy_scan ip4 src_port dst_port tenant_id ps (Suc i) (Some i, pol_priority p)
      else policy_scan ip4 src_port dst_port tenant_id ps (Suc i) (best_match, best_priority))"

definition opensase_policy_match ::
  "opensase_main \<Rightarrow> ip4_header \<Rightarrow> u16 \<Rightarrow> u16 \<Rightarrow> u32 \<Rightarrow> nat option" where
  "opensase_policy_match osm ip4 src_port dst_port tenant_id =
     fst (policy_scan ip4 src_port dst_port tenant_id (policies osm) 0 (None, - 1))"

datatype opensase_policy_next =
  OPENSASE_POLICY_NEXT_DLP | OPENSASE_POLICY_NEXT_CLASSIFY | OPENSASE_POLICY_NEXT_DROP
  | OPENSASE_POLICY_NEXT_IP4_LOOKUP

text \<open>
  What the node does with one packet: extract the ports, look the policy up, store
  \<open>policy_id\<close> and \<open>qos_class\<close>, count the hit and choose \<open>next\<close>.  The node writes this
  once as a \<open>switch\<close> and three times as a conditional expression; both read as below.
\<close>

text \<open>
  \<open>w->policy_hits[p->action]++\<close>.  The array has \<open>OPENSASE_ACTION_N_ACTIONS = 7\<close> slots
  of 64 bits and is followed in \<open>opensase_worker_t\<close> by \<open>dlp_patterns_matched\<close> and
  \<open>dlp_bytes_inspected\<close>; \<open>action\<close> is a \<open>u8\<close> that nothing checks.  The write for
  action 7 lands on \<open>dlp_patterns_matched\<close> and the write for action 8 on
  \<open>dlp_bytes_inspected\<close>.  From 9 on it lands behind the last field of the structure,
  in its padding and then in whatever follows the worker in memory: none of this
  worker's fields changes, and the memory that does is outside the state modelled here.
  Whatever is proved below of the worker after the policy node is proved for policies
  with an action below 9.
\<close>

definition policy_hits_incr :: "opensase_worker \<Rightarrow> u8 \<Rightarrow> opensase_worker" where
  "policy_hits_incr w action =
     (let a = unat action
      in if a < 7 then w\<lparr>policy_hits := (policy_hits w)[a := policy_hits w ! a + 1]\<rparr>
         else if a = 7 then w\<lparr>dlp_patterns_matched := dlp_patterns_matched w + 1\<rparr>
         else if a = 8 then w\<lparr>dlp_bytes_inspected := dlp_bytes_inspected w + 1\<rparr>
         else w)"

definition policy_apply ::
  "opensase_main \<Rightarrow> opensase_worker \<Rightarrow> vlib_buffer
     \<Rightarrow> (vlib_buffer \<times> opensase_policy_next) \<times> opensase_worker" where
  "policy_apply osm w b0 =
     (let (src_port0, dst_port0) = extract_ports b0;
          op0 = b_opaque2 b0
      in case opensase_policy_match osm (b_ip4 b0) src_port0 dst_port0 (op_tenant_id op0) of
           Some policy_idx0 \<Rightarrow>
             (let p0 = policies osm ! policy_idx0;
                  op1 = op0\<lparr>op_policy_id := pol_policy_id p0, op_qos_class := pol_qos_class p0\<rparr>;
                  w1 = policy_hits_incr w (pol_action p0);
                  next0 = (if pol_action p0 = OPENSASE_ACTION_DENY then OPENSASE_POLICY_NEXT_DROP
                           else if pol_action p0 = OPENSASE_ACTION_INSPECT_DLP
                           then OPENSASE_POLICY_NEXT_DLP
                           else OPENSASE_POLICY_NEXT_CLASSIFY)
              in ((b0\<lparr>b_opaque2 := op1\<rparr>, next0), w1))
         | None \<Rightarrow>
             ((b0, if dlp_enabled osm \<noteq> 0 then OPENSASE_POLICY_NEXT_DLP
                   else OPENSASE_POLICY_NEXT_CLASSIFY), w))"

fun opensase_policy_node ::
  "opensase_main \<Rightarrow> opensase_worker \<Rightarrow> vlib_buffer list
     \<Rightarrow> (vlib_buffer \<times> opensase_policy_next) list \<times> opensase_worker"
where
  "opensase_policy_node osm w (b0 # b1 # b2 # b3 # bs) =
     (let (r0, w0) = policy_apply osm w b0;
          (r1, w1) = policy_apply osm w0 b1;
          (r2, w2) = policy_apply osm w1 b2;
          (r3, w3) = policy_apply osm w2 b3;
          (rs, w4) = opensase_policy_node osm w3 bs
      in (r0 # r1 # r2 # r3 # rs, w4))"
| "opensase_policy_node osm w (b0 # bs) =
     (let (r0, w0) = policy_apply osm w b0;
          (rs, w1) = opensase_policy_node osm w0 bs
      in (r0 # rs, w1))"
| "opensase_policy_node osm w [] = ([], w)"

section \<open>Tenant node (node_tenant.c)\<close>

record tenant_entry =
  te_src_prefix :: u32
  te_prefix_len :: u8
  te_tenant_id :: u32
  te_vrf_id :: u32
  te_valid :: u8

text \<open>
  \<open>tenant_hash[TENANT_HASH_BUCKETS]\<close>: bucket index to the bucket's \<open>entries[4]\<close>.
  The static array starts zeroed.
\<close>

type_synonym tenant_table = "nat \<Rightarrow> tenant_entry list"

definition tenant_entry_zero :: tenant_entry where
  "tenant_entry_zero =
     \<lparr>te_src_prefix = 0, te_prefix_len = 0, te_tenant_id = 0, te_vrf_id = 0, te_valid = 0\<rparr>"

definition tenant_hash_init :: tenant_table where
  "tenant_hash_init =
     (\<lambda>_. [tenant_entry_zero, tenant_entry_zero, tenant_entry_zero, tenant_entry_zero])"

definition TENANT_HASH_MASK :: u64 where "TENANT_HASH_MASK = 65535"

definition tenant_bucket_of :: "(u64 \<Rightarrow> u64) \<Rightarrow> u32 \<Rightarrow> nat" where
  "tenant_bucket_of xxh addr = unat (xxh (ucast addr) AND TENANT_HASH_MASK)"

definition tenant_entry_hit :: "tenant_entry \<Rightarrow> u32 \<Rightarrow> bool" where
  "tenant_entry_hit e src_ip =
     (te_valid e \<noteq> 0 \<and> prefix_covers (te_src_prefix e) (te_prefix_len e) src_ip)"

text \<open>The loop over the bucket's entries; the result is \<open>(tenant_id, vrf_id)\<close>.\<close>

fun tenant_bucket_scan :: "u32 \<Rightarrow> tenant_entry list \<Rightarrow> u32 \<times> u32" where
  "tenant_bucket_scan src_ip [] = (0, 0)"
| "tenant_bucket_scan src_ip (e # es) =
     (if tenant_entry_hit e src_ip then (te_tenant_id e, te_vrf_id e)
      else tenant_bucket_scan src_ip es)"

definition tenant_lookup_fast :: "(u64 \<Rightarrow> u64) \<Rightarrow> tenant_table \<Rightarrow> u32 \<Rightarrow> u32 \<times> u32" where
  "tenant_lookup_fast xxh tenant_hash src_ip =
     tenant_bucket_scan src_ip (take 4 (tenant_hash (tenant_bucket_of xxh src_ip)))"

datatype opensase_tenant_next = OPENSASE_TENANT_NEXT_SECURITY | OPENSASE_TENANT_NEXT_DROP

text \<open>
  The node runs the same three statements on every buffer, eight, four or one at a
  time: look the tenant up, store \<open>tenant_id\<close> in the metadata, go to the security node.
  The \<open>vrf_id\<close> the lookup returns stays in a local variable.
\<close>

definition tenant_classify ::
  "(u64 \<Rightarrow> u64) \<Rightarrow> tenant_table \<Rightarrow> vlib_buffer \<Rightarrow> vlib_buffer \<times> opensase_tenant_next" where
  "tenant_classify xxh tenant_hash b0 =
     (let (tenant0, vrf0) = tenant_lookup_fast xxh tenant_hash (src_address (b_ip4 b0))
      in (b0\<lparr>b_opaque2 := (b_opaque2 b0)\<lparr>op_tenant_id := tenant0\<rparr>\<rparr>,
          OPENSASE_TENANT_NEXT_SECURITY))"

definition opensase_tenant_node ::
  "(u64 \<Rightarrow> u64) \<Rightarrow> tenant_table \<Rightarrow> vlib_buffer list
     \<Rightarrow> (vlib_buffer \<times> opensase_tenant_next) list" where
  "opensase_tenant_node xxh tenant_hash bufs = map (tenant_classify xxh tenant_hash) bufs"

text \<open>
  \<open>opensase_tenant_add_fn\<close> after parsing: the entry goes into the first free slot of
  the bucket of the prefix address; \<open>None\<close> is the error "hash bucket full".
\<close>

fun tenant_bucket_insert :: "tenant_entry \<Rightarrow> tenant_entry list \<Rightarrow> tenant_entry list option" where
  "tenant_bucket_insert new [] = None"
| "tenant_bucket_insert new (e # es) =
     (if te_valid e = 0 then Some (new # es)
      else map_option ((#) e) (tenant_bucket_insert new es))"

definition opensase_tenant_add_fn ::
  "(u64 \<Rightarrow> u64) \<Rightarrow> tenant_table \<Rightarrow> u32 \<Rightarrow> u8 \<Rightarrow> u32 \<Rightarrow> u32 \<Rightarrow> tenant_table option" where
  "opensase_tenant_add_fn xxh tenant_hash prefix prefix_len tenant_id vrf_id =
     (let hash = tenant_bucket_of xxh prefix
      in map_option (\<lambda>bucket. tenant_hash(hash := bucket))
           (tenant_bucket_insert
              \<lparr>te_src_prefix = prefix, te_prefix_len = prefix_len, te_tenant_id = tenant_id,
               te_vrf_id = vrf_id, te_valid = 1\<rparr>
              (take 4 (tenant_hash hash))))"

section \<open>Security node: the session tracker (node_security.c)\<close>

definition flow_key :: "u32 \<Rightarrow> u32 \<Rightarrow> u16 \<Rightarrow> u16 \<Rightarrow> u8 \<Rightarrow> u64" where
  "flow_key src dst src_port dst_port proto =
     (push_bit 32 (ucast src) OR ucast dst)
       XOR (push_bit 48 (ucast src_port) OR push_bit 32 (ucast dst_port) OR ucast proto)"

definition opensase_session_hash :: "(u64 \<Rightarrow> u64) \<Rightarrow> ip4_header \<Rightarrow> u16 \<Rightarrow> u16 \<Rightarrow> u64" where
  "opensase_session_hash xxh ip4 src_port dst_port =
     xxh (flow_key (src_address ip4) (dst_address ip4) src_port dst_port (protocol ip4))"

definition session_zero :: opensase_session where
  "session_zero =
     \<lparr>s_src_addr = 0, s_dst_addr = 0, s_src_port = 0, s_dst_port = 0, s_protocol = 0,
      s_state = 0, s_qos_class = 0, s_pad0 = 0, s_tenant_id = 0, s_policy_id = 0,
      s_packets_fwd = 0, s_bytes_fwd = 0, s_packets_rev = 0, s_bytes_rev = 0,
      s_last_active = 0\<rparr>"

text \<open>
  \<open>opensase_session_lookup_or_create\<close> returns the session pointer (the index of the
  session in \<open>w->sessions\<close>, \<open>None\<close> for \<open>NULL\<close>), \<open>*session_idx\<close>, \<open>*is_new\<close> and the
  worker as it leaves it.  \<open>now\<close> is the reading of \<open>vlib_time_now\<close> it makes when it
  creates a session.
\<close>

definition opensase_session_lookup_or_create ::
  "(u64 \<Rightarrow> u64) \<Rightarrow> f64 \<Rightarrow> opensase_worker \<Rightarrow> ip4_header \<Rightarrow> u16 \<Rightarrow> u16
     \<Rightarrow> (nat option \<times> u32 \<times> bool) \<times> opensase_worker" where
  "opensase_session_lookup_or_create xxh now w ip4 src_port dst_port =
     (let hash = opensase_session_hash xxh ip4 src_port dst_port
      in case session_hash w hash of
           Some p \<Rightarrow> ((Some p, of_nat p, False), w)
         | None \<Rightarrow>
             if n_sessions w \<ge> length (sessions w) then ((None, - 1, False), w)
             else (let idx = n_sessions w;
                       s = session_zero
                             \<lparr>s_src_addr := src_address ip4, s_dst_addr := dst_address ip4,
                              s_src_port := src_port, s_dst_port := dst_port,
                              s_protocol := protocol ip4, s_state := OPENSASE_SESSION_NEW,
                              s_last_active := now\<rparr>
                   in ((Some idx, of_nat idx, True),
                       w\<lparr>n_sessions := idx + 1,
                         sessions := (sessions w)[idx := s],
                         session_hash := (session_hash w)(hash \<mapsto> idx),
                         sessions_created := sessions_created w + 1\<rparr>)))"

datatype opensase_security_next =
  OPENSASE_SECURITY_NEXT_POLICY | OPENSASE_SECURITY_NEXT_DROP | OPENSASE_SECURITY_NEXT_IP4_LOOKUP

text \<open>The key under which the node looks a buffer's session up.\<close>

definition buffer_session_hash :: "(u64 \<Rightarrow> u64) \<Rightarrow> vlib_buffer \<Rightarrow> u64" where
  "buffer_session_hash xxh b =
     (let (src_port, dst_port) = extract_ports b
      in opensase_session_hash xxh (b_ip4 b) src_port dst_port)"

definition security_lookup ::
  "(u64 \<Rightarrow> u64) \<Rightarrow> f64 \<Rightarrow> opensase_worker \<Rightarrow> vlib_buffer
     \<Rightarrow> (nat option \<times> u32 \<times> bool) \<times> opensase_worker" where
  "security_lookup xxh now w b =
     (let (src_port, dst_port) = extract_ports b
      in opensase_session_lookup_or_create xxh now w (b_ip4 b) src_port dst_port)"

text \<open>"Update session stats": \<open>if (s0) { packets_fwd++; bytes_fwd += len; last_active = now }\<close>.\<close>

definition session_touch :: "f64 \<Rightarrow> u32 \<Rightarrow> opensase_session \<Rightarrow> opensase_session" where
  "session_touch now len s =
     s\<lparr>s_packets_fwd := s_packets_fwd s + 1,
       s_bytes_fwd := s_bytes_fwd s + ucast len,
       s_last_active := now\<rparr>"

definition security_update ::
  "f64 \<Rightarrow> opensase_worker \<Rightarrow> vlib_buffer \<Rightarrow> nat option \<Rightarrow> opensase_worker" where
  "security_update now w b s0 =
     (case s0 of
        Some i \<Rightarrow> w\<lparr>sessions := (sessions w)[i := session_touch now (b_length_in_chain b)
                                                      (sessions w ! i)]\<rparr>
      | None \<Rightarrow> w)"

definition security_out ::
  "vlib_buffer \<Rightarrow> nat option \<times> u32 \<times> bool \<Rightarrow> vlib_buffer \<times> opensase_security_next" where
  "security_out b r =
     (b\<lparr>b_opaque2 := (b_opaque2 b)\<lparr>op_session_idx := fst (snd r)\<rparr>\<rparr>,
      if fst r \<noteq> None then OPENSASE_SECURITY_NEXT_POLICY else OPENSASE_SECURITY_NEXT_DROP)"

text \<open>
  The node reads \<open>vlib_time_now\<close> once in every session creation and once in every
  statistics update, so the readings of one frame differ.  A \<open>frame_clock\<close> gives them:
  \<open>created_at clk i\<close> is what the creation made for the \<open>i\<close>-th buffer of the frame
  reads, \<open>updated_at clk i\<close> what the statistics update of the \<open>i\<close>-th buffer reads.
\<close>

record frame_clock =
  created_at :: "nat \<Rightarrow> f64"
  updated_at :: "nat \<Rightarrow> f64"

text \<open>
  The frame loops, from the \<open>k\<close>-th buffer of the frame on.  Four at a time: the four
  lookups, then the four metadata stores, then the four statistics updates.  Then one
  at a time.
\<close>

fun security_frame ::
  "(u64 \<Rightarrow> u64) \<Rightarrow> frame_clock \<Rightarrow> nat \<Rightarrow> opensase_worker \<Rightarrow> vlib_buffer list
     \<Rightarrow> (vlib_buffer \<times> opensase_security_next) list \<times> opensase_worker"
where
  "security_frame xxh clk k w (b0 # b1 # b2 # b3 # bs) =
     (let (r0, wa) = security_lookup xxh (created_at clk k) w b0;
          (r1, wb) = security_lookup xxh (created_at clk (k + 1)) wa b1;
          (r2, wc) = security_lookup xxh (created_at clk (k + 2)) wb b2;
          (r3, wd) = security_lookup xxh (created_at clk (k + 3)) wc b3;
          we = security_update (updated_at clk k) wd b0 (fst r0);
          wf = security_update (updated_at clk (k + 1)) we b1 (fst r1);
          wg = security_update (updated_at clk (k + 2)) wf b2 (fst r2);
          wh = security_update (updated_at clk (k + 3)) wg b3 (fst r3);
          (rs, wi) = security_frame xxh clk (k + 4) wh bs
      in (security_out b0 r0 # security_out b1 r1 # security_out b2 r2 # security_out b3 r3 # rs,
          wi))"
| "security_frame xxh clk k w (b0 # bs) =
     (let (r0, wa) = security_lookup xxh (created_at clk k) w b0;
          wb = security_update (updated_at clk k) wa b0 (fst r0);
          (rs, wc) = security_frame xxh clk (k + 1) wb bs
      in (security_out b0 r0 # rs, wc))"
| "security_frame xxh clk k w [] = ([], w)"

definition opensase_security_node ::
  "(u64 \<Rightarrow> u64) \<Rightarrow> frame_clock \<Rightarrow> opensase_worker \<Rightarrow> vlib_buffer list
     \<Rightarrow> (vlib_buffer \<times> opensase_security_next) list \<times> opensase_worker" where
  "opensase_security_node xxh clk w bufs =
     (let (outs, w1) = security_frame xxh clk 0 w bufs
      in (outs, w1\<lparr>packets_processed := packets_processed w1 + of_nat (length bufs)\<rparr>))"

section \<open>NAT node (node_nat.c)\<close>

record nat_mapping =
  m_internal_addr :: u32
  m_external_addr :: u32
  m_internal_port :: u16
  m_external_port :: u16
  m_protocol :: u8
  m_flags :: u8
  m_tenant_id :: u16
  m_session_idx :: u32
  m_expire_time :: f64

record nat_pool =
  pool_external_addr :: u32
  port_start :: u16
  port_end :: u16
  next_port :: u16
  pool_pad :: u16

record nat_worker =
  mappings :: "nat_mapping list"
  mapping_hash :: "u64 \<rightharpoonup> nat"
  n_mappings :: u32
  tenant_pools :: "nat \<Rightarrow> nat_pool"

definition nat_hash_key :: "(u64 \<Rightarrow> u64) \<Rightarrow> u32 \<Rightarrow> u32 \<Rightarrow> u16 \<Rightarrow> u16 \<Rightarrow> u8 \<Rightarrow> u64" where
  "nat_hash_key xxh src dst src_port dst_port proto =
     xxh (flow_key src dst src_port dst_port proto)"

text \<open>\<open>nat_lookup\<close>: the index of the mapping the hash holds for the key, or \<open>NULL\<close>.\<close>

definition nat_lookup ::
  "(u64 \<Rightarrow> u64) \<Rightarrow> nat_worker \<Rightarrow> u32 \<Rightarrow> u32 \<Rightarrow> u16 \<Rightarrow> u16 \<Rightarrow> u8 \<Rightarrow> nat option" where
  "nat_lookup xxh w src dst src_port dst_port proto =
     mapping_hash w (nat_hash_key xxh src dst src_port dst_port proto)"

text \<open>
  "Get tenant pool" and "Check if pool is configured": tenant ids from 256 on fall back
  to tenant 0, an unconfigured pool (external address 0) to pool 0.
\<close>

definition nat_tenant_clamp :: "u32 \<Rightarrow> u32" where
  "nat_tenant_clamp tenant_id = (if tenant_id \<ge> 256 then 0 else tenant_id)"

definition nat_pool_index :: "nat_worker \<Rightarrow> u32 \<Rightarrow> nat" where
  "nat_pool_index w tenant_id =
     (if pool_external_addr (tenant_pools w (unat (nat_tenant_clamp tenant_id))) = 0 then 0
      else unat (nat_tenant_clamp tenant_id))"

definition nat_buffer_key :: "(u64 \<Rightarrow> u64) \<Rightarrow> vlib_buffer \<Rightarrow> u64" where
  "nat_buffer_key xxh b =
     nat_hash_key xxh (src_address (b_ip4 b)) (dst_address (b_ip4 b))
       (clib_net_to_host_u16 (b_ports0 b)) (clib_net_to_host_u16 (b_ports1 b))
       (protocol (b_ip4 b))"

text \<open>
  \<open>nat_create_mapping\<close> returns the new mapping's index and the worker as it leaves
  it.  It has no \<open>NULL\<close> return.  \<open>m_flags\<close> and \<open>m_session_idx\<close> are not written by
  it; the new vector element is taken as zeroed.  \<open>now + 300.0\<close> is a sum of doubles
  in C and of reals here; they agree at the instants used below.
\<close>

definition nat_create_mapping ::
  "(u64 \<Rightarrow> u64) \<Rightarrow> nat_worker \<Rightarrow> u32 \<Rightarrow> u32 \<Rightarrow> u16 \<Rightarrow> u32 \<Rightarrow> u16 \<Rightarrow> u8 \<Rightarrow> f64
     \<Rightarrow> nat \<times> nat_worker" where
  "nat_create_mapping xxh w tenant_id internal_addr internal_port dst dst_port proto now =
     (let tenant_id1 = nat_tenant_clamp tenant_id;
          pool_idx = nat_pool_index w tenant_id;
          pool = tenant_pools w pool_idx;
          nat_port = next_port pool;
          pool1 = pool\<lparr>next_port := next_port pool + 1\<rparr>;
          pool2 = (if next_port pool1 > port_end pool1
                   then pool1\<lparr>next_port := port_start pool1\<rparr> else pool1);
          mapping_idx = length (mappings w);
          m = \<lparr>m_internal_addr = internal_addr, m_external_addr = pool_external_addr pool2,
               m_internal_port = internal_port, m_external_port = nat_port,
               m_protocol = proto, m_flags = 0, m_tenant_id = ucast tenant_id1,
               m_session_idx = 0, m_expire_time = now + 300\<rparr>;
          key = nat_hash_key xxh internal_addr dst internal_port dst_port proto
      in (mapping_idx,
          w\<lparr>mappings := mappings w @ [m],
            mapping_hash := (mapping_hash w)(key \<mapsto> mapping_idx),
            n_mappings := n_mappings w + 1,
            tenant_pools := (tenant_pools w)(pool_idx := pool2)\<rparr>))"

definition nat_translate :: "vlib_buffer \<Rightarrow> nat_mapping \<Rightarrow> vlib_buffer" where
  "nat_translate b m =
     (let ip1 = (b_ip4 b)\<lparr>src_address := m_external_addr m\<rparr>;
          b1 = (if protocol ip1 = IP_PROTOCOL_TCP \<or> protocol ip1 = IP_PROTOCOL_UDP
                then b\<lparr>b_ports0 := clib_host_to_net_u16 (m_external_port m), b_l4_checksum := 0\<rparr>
                else b)
      in b1\<lparr>b_ip4 := ip1\<lparr>checksum := ip4_header_checksum ip1\<rparr>\<rparr>)"

datatype opensase_nat_next =
  OPENSASE_NAT_NEXT_ENCRYPT | OPENSASE_NAT_NEXT_OUTPUT | OPENSASE_NAT_NEXT_DROP

text \<open>"Lookup or create NAT mappings" for one packet: the mapping pointer and the worker.\<close>

definition nat_lookup_or_create ::
  "(u64 \<Rightarrow> u64) \<Rightarrow> f64 \<Rightarrow> nat_worker \<Rightarrow> vlib_buffer \<Rightarrow> nat option \<times> nat_worker" where
  "nat_lookup_or_create xxh now w b =
     (let ip0 = b_ip4 b;
          src_port0 = clib_net_to_host_u16 (b_ports0 b);
          dst_port0 = clib_net_to_host_u16 (b_ports1 b)
      in case nat_lookup xxh w (src_address ip0) (dst_address ip0) src_port0 dst_port0
                (protocol ip0) of
           Some i \<Rightarrow> (Some i, w)
         | None \<Rightarrow>
             (let (i, w1) = nat_create_mapping xxh w (op_tenant_id (b_opaque2 b))
                              (src_address ip0) src_port0 (dst_address ip0) dst_port0
                              (protocol ip0) now
              in (Some i, w1)))"

text \<open>"Apply translations" and "next node": \<open>m0 ? ENCRYPT : DROP\<close>.\<close>

definition nat_out :: "nat_worker \<Rightarrow> vlib_buffer \<Rightarrow> nat option \<Rightarrow> vlib_buffer \<times> opensase_nat_next" where
  "nat_out w b m0 =
     (case m0 of
        Some i \<Rightarrow> (nat_translate b (mappings w ! i), OPENSASE_NAT_NEXT_ENCRYPT)
      | None \<Rightarrow> (b, OPENSASE_NAT_NEXT_DROP))"

text \<open>
  The frame loops.  Four at a time: the four lookups or creations in order, then the
  four translations; then one at a time.  The C code holds the mappings of a group as
  pointers into the vector.  The model holds them as indices and reads them in the
  vector as the last call of the group leaves it: it takes \<open>vec_add2\<close> to leave the
  earlier elements where they are (a vector that has to grow may move, and a pointer
  taken before that is then stale).
\<close>

fun opensase_nat_node ::
  "(u64 \<Rightarrow> u64) \<Rightarrow> f64 \<Rightarrow> nat_worker \<Rightarrow> vlib_buffer list
     \<Rightarrow> (vlib_buffer \<times> opensase_nat_next) list \<times> nat_worker"
where
  "opensase_nat_node xxh now w (b0 # b1 # b2 # b3 # bs) =
     (let (m0, wa) = nat_lookup_or_create xxh now w b0;
          (m1, wb) = nat_lookup_or_create xxh now wa b1;
          (m2, wc) = nat_lookup_or_create xxh now wb b2;
          (m3, wd) = nat_lookup_or_create xxh now wc b3;
          (rs, we) = opensase_nat_node xxh now wd bs
      in (nat_out wd b0 m0 # nat_out wd b1 m1 # nat_out wd b2 m2 # nat_out wd b3 m3 # rs, we))"
| "opensase_nat_node xxh now w (b0 # bs) =
     (let (m0, wa) = nat_lookup_or_create xxh now w b0;
          (rs, wb) = opensase_nat_node xxh now wa bs
      in (nat_out wa b0 m0 # rs, wb))"
| "opensase_nat_node xxh now w [] = ([], w)"

text \<open>\<open>opensase_nat_pool_fn\<close> after parsing, for one worker.\<close>

definition opensase_nat_pool_fn ::
  "nat_worker \<Rightarrow> u32 \<Rightarrow> u32 \<Rightarrow> u32 \<Rightarrow> u32 \<Rightarrow> nat_worker option" where
  "opensase_nat_pool_fn w tenant_id addr port_start_arg port_end_arg =
     (if tenant_id \<ge> 256 then None
      else Some (w\<lparr>tenant_pools := (tenant_pools w)(unat tenant_id :=
              (tenant_pools w (unat tenant_id))
                \<lparr>pool_external_addr := addr, port_start := ucast port_start_arg,
                 port_end := ucast port_end_arg, next_port := ucast port_start_arg\<rparr>)\<rparr>))"

section \<open>IPS node (node_security_inspect.c), built without Hyperscan\<close>

datatype ips_category =
  IPS_CAT_MALWARE | IPS_CAT_EXPLOIT | IPS_CAT_BOTNET | IPS_CAT_CVE | IPS_CAT_POLICY

datatype ips_action = IPS_ACTION_ALERT | IPS_ACTION_DROP | IPS_ACTION_REJECT

record ips_match_result =
  res_signature_id :: u32
  res_action :: ips_action
  res_category :: ips_category
  res_matched :: u8

record ips_worker =
  ips_packets_scanned :: u64
  ips_bytes_scanned :: u64
  ips_signatures_matched :: u64
  ips_packets_blocked :: u64
  ips_category_hits :: "ips_category \<Rightarrow> u64"

text \<open>The two tests inside the loops of \<open>simple_pattern_scan\<close>, at offset \<open>i\<close>.\<close>

definition jndi_at :: "string \<Rightarrow> nat \<Rightarrow> bool" where
  "jndi_at data i =
     (data ! i = CHR ''$'' \<and> data ! (i + 1) = CHR ''{''
      \<and> (data ! (i + 2) = CHR ''j'' \<or> data ! (i + 2) = CHR ''J''))"

definition union_at :: "string \<Rightarrow> nat \<Rightarrow> bool" where
  "union_at data i =
     ((data ! i = CHR ''U'' \<or> data ! i = CHR ''u'')
      \<and> (data ! (i + 1) = CHR ''N'' \<or> data ! (i + 1) = CHR ''n'')
      \<and> (data ! (i + 2) = CHR ''I'' \<or> data ! (i + 2) = CHR ''i'')
      \<and> (data ! (i + 3) = CHR ''O'' \<or> data ! (i + 3) = CHR ''o'')
      \<and> (data ! (i + 4) = CHR ''N'' \<or> data ! (i + 4) = CHR ''n''))"

text \<open>
  \<open>for (i = ...; i < bound; i++) if (hit at i) { ...; return; }\<close>: whether the loop
  returns from inside.
\<close>

function scan_loop :: "(nat \<Rightarrow> bool) \<Rightarrow> nat \<Rightarrow> nat \<Rightarrow> bool" where
  "scan_loop hit i bound =
     (if i < bound then (if hit i then True else scan_loop hit (Suc i) bound) else False)"
  by pat_completeness auto
termination
  by (relation "measure (\<lambda>(hit, i, bound). bound - i)") auto

declare scan_loop.simps [simp del]

definition simple_pattern_scan :: "string \<Rightarrow> u32 \<Rightarrow> ips_match_result \<Rightarrow> ips_match_result" where
  "simple_pattern_scan data len result =
     (if len \<ge> 10 \<and> scan_loop (jndi_at data) 0 (unat (len - 10))
      then result\<lparr>res_signature_id := 4001, res_action := IPS_ACTION_DROP,
                  res_category := IPS_CAT_CVE, res_matched := 1\<rparr>
      else if len \<ge> 6 \<and> scan_loop (union_at data) 0 (unat (len - 6))
      then result\<lparr>res_signature_id := 2003, res_action := IPS_ACTION_DROP,
                  res_category := IPS_CAT_EXPLOIT, res_matched := 1\<rparr>
      else result)"

text \<open>
  \<open>ips_scan_packet\<close>.  \<open>l4\<close> is the buffer from \<open>(u8 *) ip4 + ip_hdr_len\<close> onwards: the
  TCP or UDP header and what follows it.  The TCP data offset is byte 12 of it, the UDP
  length bytes 4 and 5 (network order).  \<open>result\<close> comes in uninitialised; its category
  is not written unless a pattern hits.
\<close>

definition ips_scan_payload ::
  "ips_worker \<Rightarrow> string \<Rightarrow> u32 \<Rightarrow> ips_match_result \<Rightarrow> ips_worker \<times> ips_match_result" where
  "ips_scan_payload w payload payload_len result =
     (if payload_len = 0 \<or> payload_len > 65535 then (w, result)
      else (let payload_len1 = (if payload_len > 1500 then 1500 else payload_len)
            in (w\<lparr>ips_bytes_scanned := ips_bytes_scanned w + ucast payload_len1\<rparr>,
                simple_pattern_scan payload payload_len1 result)))"

definition ips_scan_packet ::
  "ips_worker \<Rightarrow> ip4_header \<Rightarrow> string \<Rightarrow> ips_match_result \<Rightarrow> ips_worker \<times> ips_match_result" where
  "ips_scan_packet w ip4 l4 result0 =
     (let ip_len = (ucast (clib_net_to_host_u16 (ip_length ip4)) :: u32);
          ip_hdr_len = (push_bit 2 (ucast (ip_version_and_header_length ip4 AND 0x0f)) :: u32);
          result = result0\<lparr>res_matched := 0, res_signature_id := 0,
                           res_action := IPS_ACTION_ALERT\<rparr>
      in if protocol ip4 = IP_PROTOCOL_TCP
         then (let tcp_hdr_len = (push_bit 2 (drop_bit 4 (of_char (l4 ! 12))) :: u32)
               in ips_scan_payload w (drop (unat tcp_hdr_len) l4)
                    (ip_len - ip_hdr_len - tcp_hdr_len) result)
         else if protocol ip4 = IP_PROTOCOL_UDP
         then (let udp_length = (push_bit 8 (of_char (l4 ! 4)) OR of_char (l4 ! 5) :: u32)
               in ips_scan_payload w (drop 8 l4) (udp_length - 8) result)
         else (w, result))"

datatype security_inspect_next =
  SECURITY_INSPECT_NEXT_NAT | SECURITY_INSPECT_NEXT_DROP | SECURITY_INSPECT_NEXT_LOG

text \<open>What the node does with one packet (the same statements in both loops).\<close>

definition security_inspect_one ::
  "ips_worker \<Rightarrow> ip4_header \<Rightarrow> string \<Rightarrow> ips_match_result
     \<Rightarrow> security_inspect_next \<times> ips_worker" where
  "security_inspect_one w ip0 l4 res_uninit =
     (let (w1, res0) = ips_scan_packet w ip0 l4 res_uninit;
          w2 = w1\<lparr>ips_packets_scanned := ips_packets_scanned w1 + 1\<rparr>
      in if res_matched res0 \<noteq> 0
         then (let w3 = w2\<lparr>ips_signatures_matched := ips_signatures_matched w2 + 1,
                           ips_category_hits := (ips_category_hits w2)
                             (res_category res0 := ips_category_hits w2 (res_category res0) + 1)\<rparr>
               in if res_action res0 = IPS_ACTION_DROP
                  then (SECURITY_INSPECT_NEXT_DROP,
                        w3\<lparr>ips_packets_blocked := ips_packets_blocked w3 + 1\<rparr>)
                  else (SECURITY_INSPECT_NEXT_LOG, w3))
         else (SECURITY_INSPECT_NEXT_NAT, w2))"

section \<open>The specification's words for a match\<close>

text \<open>
  These two definitions follow the specification, not the code.  An address lies in the
  prefix \<open>prefix/len\<close> when its first \<open>len\<close> bits, in network order, are those of the
  prefix; a length of zero admits every address.  A policy matches a packet when each of
  its six predicates does, a zero predicate matching any value.
\<close>

definition ip4_in_prefix :: "u32 \<Rightarrow> u8 \<Rightarrow> u32 \<Rightarrow> bool" where
  "ip4_in_prefix prefix len addr =
     (drop_bit (32 - unat len) (clib_net_to_host_u32 addr)
        = drop_bit (32 - unat len) (clib_net_to_host_u32 prefix))"

definition spec_policy_matches ::
  "opensase_policy \<Rightarrow> ip4_header \<Rightarrow> u16 \<Rightarrow> u16 \<Rightarrow> u32 \<Rightarrow> bool" where
  "spec_policy_matches p ip4 src_port dst_port tenant_id =
     ((pol_tenant_id p = 0 \<or> pol_tenant_id p = tenant_id)
      \<and> ip4_in_prefix (pol_src_prefix p) (pol_src_prefix_len p) (src_address ip4)
      \<and> ip4_in_prefix (pol_dst_prefix p) (pol_dst_prefix_len p) (dst_address ip4)
      \<and> (pol_protocol p = 0 \<or> pol_protocol p = protocol ip4)
      \<and> (pol_src_port_min p = 0 \<and> pol_src_port_max p = 0
           \<or> pol_src_port_min p \<le> src_port \<and> src_port \<le> pol_src_port_max p)
      \<and> (pol_dst_port_min p = 0 \<and> pol_dst_port_max p = 0
           \<or> pol_dst_port_min p \<le> dst_port \<and> dst_port \<le> pol_dst_port_max p))"

section \<open>Concrete inputs\<close>

text \<open>
  The inputs of the witnesses and counterexamples below.  Where a hash function has to
  be supplied, it is the identity; each example is chosen so that its outcome is the
  same under every hash function, and the general lemmas beside it say so.
\<close>

definition xxh_example :: "u64 \<Rightarrow> u64" where
  "xxh_example k = k"

text \<open>
  A TCP segment 10.1.0.5:33000 to 203.0.113.10:443, 40 bytes of headers, with a valid
  header checksum; its metadata; the buffer holding it.
\<close>

definition ex_hdr :: ip4_header where
  "ex_hdr =
     \<lparr>ip_version_and_header_length = 0x45, tos = 0, ip_length = 0x2800, fragment_id = 0,
      flags_and_fragment_offset = 0, ttl = 64, protocol = 6, checksum = 0xC034,
      src_address = ip4_addr 10 1 0 5, dst_address = ip4_addr 203 0 113 10\<rparr>"

definition ex_opaque :: opensase_buffer_opaque where
  "ex_opaque =
     \<lparr>op_tenant_id = 7, op_policy_id = 0, op_app_id = 0, op_qos_class = OPENSASE_QOS_DEFAULT,
      op_flags = 0, op_session_idx = 0\<rparr>"

definition ex_buf :: vlib_buffer where
  "ex_buf =
     \<lparr>b_ip4 = ex_hdr, b_ports0 = clib_host_to_net_u16 33000,
      b_ports1 = clib_host_to_net_u16 443, b_l4_checksum = 0, b_tcp_flags = 0x02,
      b_opaque2 = ex_opaque, b_length_in_chain = 40\<rparr>"

text \<open>A worker with room for two sessions and none tracked; a plugin state without policies.\<close>

definition ex_worker :: opensase_worker where
  "ex_worker =
     \<lparr>sessions = [session_zero, session_zero], n_sessions = 0, session_hash = Map.empty,
      packets_processed = 0, bytes_processed = 0, packets_dropped = 0, sessions_created = 0,
      sessions_expired = 0, policy_hits = [0, 0, 0, 0, 0, 0, 0], dlp_patterns_matched = 0,
      dlp_bytes_inspected = 0\<rparr>"

definition ex_main :: opensase_main where
  "ex_main =
     \<lparr>policies = [], n_policies = 0, session_timeout_secs = 300,
      max_sessions_per_worker = 2, dlp_enabled = 1, logging_enabled = 1\<rparr>"

text \<open>A policy that matches every packet of every tenant.\<close>

definition ex_policy :: opensase_policy where
  "ex_policy =
     \<lparr>pol_policy_id = 1, pol_priority = 10, pol_tenant_id = 0, pol_src_prefix = 0,
      pol_dst_prefix = 0, pol_src_prefix_len = 0, pol_dst_prefix_len = 0,
      pol_src_port_min = 0, pol_src_port_max = 0, pol_dst_port_min = 0, pol_dst_port_max = 0,
      pol_protocol = 0, pol_action = OPENSASE_ACTION_ALLOW, pol_qos_class = OPENSASE_QOS_DEFAULT,
      pol_log_enabled = 0, pol_rate_limit_kbps = 0\<rparr>"

text \<open>
  The scavenger bucket of tenant 7 as \<open>opensase qos rate-limit tenant 7 rate 100\<close> sets
  it up, drained at time 5; every other bucket unconfigured.
\<close>

definition ex_bucket :: token_bucket where
  "ex_bucket =
     (init_rate_limiter \<lparr>tokens = 0, last_update = 0, rate_bps = 0, burst_bytes = 0\<rparr> 100)
       \<lparr>tokens := 0, last_update := 5\<rparr>"

definition ex_limiters :: tenant_limiters where
  "ex_limiters =
     (\<lambda>t c. if t = 7 \<and> c = 4 then ex_bucket
            else \<lparr>tokens = 0, last_update = 0, rate_bps = 0, burst_bytes = 0\<rparr>)"

definition ex_scavenger :: vlib_buffer where
  "ex_scavenger =
     ex_buf\<lparr>b_opaque2 := ex_opaque\<lparr>op_qos_class := OPENSASE_QOS_SCAVENGER\<rparr>,
            b_length_in_chain := 1500\<rparr>"

text \<open>
  A TCP segment whose ten payload bytes start with the Log4j prefix: the IPv4 header
  (total length 50), and the buffer from the TCP header on (data offset 5, then the
  payload).  \<open>ex_result\<close> stands for the uninitialised result variable.
\<close>

definition ex_ips_hdr :: ip4_header where
  "ex_ips_hdr = ex_hdr\<lparr>ip_length := clib_host_to_net_u16 50\<rparr>"

definition ex_tcp_header :: string where
  "ex_tcp_header = replicate 12 (CHR 0x00) @ [CHR 0x50] @ replicate 7 (CHR 0x00)"

definition ex_jndi_payload :: string where
  "ex_jndi_payload = ''${jndi:abc''"

definition ex_result :: ips_match_result where
  "ex_result =
     \<lparr>res_signature_id = 0, res_action = IPS_ACTION_ALERT, res_category = IPS_CAT_MALWARE,
      res_matched = 0\<rparr>"

definition ex_ips_worker :: ips_worker where
  "ex_ips_worker =
     \<lparr>ips_packets_scanned = 0, ips_bytes_scanned = 0, ips_signatures_matched = 0,
      ips_packets_blocked = 0, ips_category_hits = (\<lambda>_. 0)\<rparr>"

text \<open>
  Policy vectors: one with the match-all allow policy only; one with a free slot, then
  a policy of priority 10, two of priority 5, the first of them for sources in
  10.1.0.0/16, and one of priority 1 for sources in 10.2.0.0/16; one whose only entry
  has policy id 0 and priority 0 and denies everything of tenant 7.
\<close>

definition ex_allow_main :: opensase_main where
  "ex_allow_main = ex_main\<lparr>policies := [ex_policy]\<rparr>"

definition policy_zero :: opensase_policy where
  "policy_zero =
     \<lparr>pol_policy_id = 0, pol_priority = 0, pol_tenant_id = 0, pol_src_prefix = 0,
      pol_dst_prefix = 0, pol_src_prefix_len = 0, pol_dst_prefix_len = 0,
      pol_src_port_min = 0, pol_src_port_max = 0, pol_dst_port_min = 0, pol_dst_port_max = 0,
      pol_protocol = 0, pol_action = 0, pol_qos_class = 0, pol_log_enabled = 0,
      pol_rate_limit_kbps = 0\<rparr>"

definition ex_tie_main :: opensase_main where
  "ex_tie_main =
     ex_main\<lparr>policies :=
       [policy_zero,
        ex_policy,
        ex_policy\<lparr>pol_policy_id := 2, pol_priority := 5, pol_action := OPENSASE_ACTION_LOG,
                  pol_src_prefix := ip4_addr 10 1 0 0, pol_src_prefix_len := 16\<rparr>,
        ex_policy\<lparr>pol_policy_id := 3, pol_priority := 5, pol_action := OPENSASE_ACTION_DENY\<rparr>,
        ex_policy\<lparr>pol_policy_id := 4, pol_priority := 1, pol_action := OPENSASE_ACTION_DENY,
                  pol_src_prefix := ip4_addr 10 2 0 0, pol_src_prefix_len := 16\<rparr>]\<rparr>"

definition ex_deny_zero :: opensase_policy where
  "ex_deny_zero = policy_zero\<lparr>pol_tenant_id := 7, pol_action := OPENSASE_ACTION_DENY\<rparr>"

definition ex_deny_zero_main :: opensase_main where
  "ex_deny_zero_main = ex_main\<lparr>policies := [ex_deny_zero]\<rparr>"

text \<open>
  The tenant table after \<open>opensase tenant add 10.1.0.5/8 tenant 1 vrf 11\<close> and then
  \<open>opensase tenant add 10.1.0.5/32 tenant 2 vrf 22\<close>, under the hash \<open>xxh\<close>.
\<close>

definition ex_tenant_table :: "(u64 \<Rightarrow> u64) \<Rightarrow> tenant_table" where
  "ex_tenant_table xxh =
     the (opensase_tenant_add_fn xxh
            (the (opensase_tenant_add_fn xxh tenant_hash_init (ip4_addr 10 1 0 5) 8 1 11))
            (ip4_addr 10 1 0 5) 32 2 22)"

text \<open>
  A NAT worker with no mappings yet whose pool 0 is 198.51.100.4 with the single port
  10000 and whose other pools are unconfigured; a second flow, from 10.1.0.6.
\<close>

definition ex_pool :: nat_pool where
  "ex_pool =
     \<lparr>pool_external_addr = ip4_addr 198 51 100 4, port_start = 10000, port_end = 10000,
      next_port = 10000, pool_pad = 0\<rparr>"

definition ex_nat_worker :: nat_worker where
  "ex_nat_worker =
     \<lparr>mappings = [], mapping_hash = Map.empty, n_mappings = 0,
      tenant_pools = (\<lambda>t. if t = 0 then ex_pool
                          else \<lparr>pool_external_addr = 0, port_start = 0, port_end = 0,
                                next_port = 0, pool_pad = 0\<rparr>)\<rparr>"

definition ex_buf2 :: vlib_buffer where
  "ex_buf2 = ex_buf\<lparr>b_ip4 := ex_hdr\<lparr>src_address := ip4_addr 10 1 0 6\<rparr>\<rparr>"

text \<open>
  A flow whose key collides with that of \<open>ex_buf\<close> before any hashing, so under every
  hash function: 10.1.0.6:33768 to 203.0.113.10:443, against 10.1.0.5:33000 to the same
  server.  The source port is XORed into the same sixteen key bits as the last two bytes
  of the source address: \<open>0x0600 XOR 0x83E8 = 0x0500 XOR 0x80E8\<close>.
\<close>

definition ex_collide :: vlib_buffer where
  "ex_collide =
     ex_buf\<lparr>b_ip4 := ex_hdr\<lparr>src_address := ip4_addr 10 1 0 6\<rparr>,
            b_ports0 := clib_host_to_net_u16 33768, b_length_in_chain := 60\<rparr>"

text \<open>
  The reverse direction of \<open>ex_buf\<close>'s flow (a SYN-ACK), and a FIN segment of the flow
  itself.
\<close>

definition ex_reverse :: vlib_buffer where
  "ex_reverse =
     ex_buf\<lparr>b_ip4 := ex_hdr\<lparr>src_address := ip4_addr 203 0 113 10,
                              dst_address := ip4_addr 10 1 0 5\<rparr>,
            b_ports0 := clib_host_to_net_u16 443, b_ports1 := clib_host_to_net_u16 33000,
            b_tcp_flags := 0x12\<rparr>"

definition ex_fin :: vlib_buffer where
  "ex_fin = ex_buf\<lparr>b_tcp_flags := 0x11\<rparr>"

section \<open>Relations between worker states, for the proofs\<close>

text \<open>
  \<open>tracker_step w w'\<close>: what every operation of the session tracker keeps between the
  worker before and after.  The session count does not fall, the table keeps its
  capacity, every key of the hash keeps its index, every session that existed keeps its
  state, every session added is in state new, and a full table stays as it is.
\<close>

definition tracker_step :: "opensase_worker \<Rightarrow> opensase_worker \<Rightarrow> bool" where
  "tracker_step w w' \<longleftrightarrow>
     n_sessions w \<le> n_sessions w'
     \<and> length (sessions w') = length (sessions w)
     \<and> (\<forall>k i. session_hash w k = Some i \<longrightarrow> session_hash w' k = Some i)
     \<and> (\<forall>j < n_sessions w. s_state (sessions w' ! j) = s_state (sessions w ! j))
     \<and> (\<forall>j. n_sessions w \<le> j \<and> j < n_sessions w'
            \<longrightarrow> s_state (sessions w' ! j) = OPENSASE_SESSION_NEW)
     \<and> (length (sessions w) \<le> n_sessions w
            \<longrightarrow> n_sessions w' = n_sessions w \<and> session_hash w' = session_hash w)"

text \<open>The 5-tuple the tracker stores for a buffer's flow.\<close>

definition session_tuple :: "vlib_buffer \<Rightarrow> u32 \<times> u32 \<times> u16 \<times> u16 \<times> u8" where
  "session_tuple b =
     (src_address (b_ip4 b), dst_address (b_ip4 b), fst (extract_ports b),
      snd (extract_ports b), protocol (b_ip4 b))"

definition stored_tuple :: "opensase_session \<Rightarrow> u32 \<times> u32 \<times> u16 \<times> u16 \<times> u8" where
  "stored_tuple s = (s_src_addr s, s_dst_addr s, s_src_port s, s_dst_port s, s_protocol s)"


definition ex_clock :: frame_clock where
  "ex_clock = \<lparr>created_at = (\<lambda>i. real (2 * i)), updated_at = (\<lambda>i. real (2 * i + 1))\<rparr>"


text \<open>
  \<open>tracker_wf w\<close>: the session count is within the capacity of the table and every
  index the session hash holds is below the count.  The worker starts that way (count
  0, empty hash) and the tracker keeps it so (lemma \<open>security_node_wf\<close>).
\<close>

definition tracker_wf :: "opensase_worker \<Rightarrow> bool" where
  "tracker_wf w \<longleftrightarrow>
     n_sessions w \<le> length (sessions w)
     \<and> (\<forall>k i. session_hash w k = Some i \<longrightarrow> i < n_sessions w)"

text \<open>A session pointer held across later calls: \<open>NULL\<close>, or a session below the count.\<close>

definition session_ref_ok :: "opensase_worker \<Rightarrow> nat option \<Rightarrow> bool" where
  "session_ref_ok w s0 = (case s0 of None \<Rightarrow> True | Some i \<Rightarrow> i < n_sessions w)"

text \<open>
  One packet at a time: lookup, metadata store and statistics update of one buffer, as
  the remainder loop does them, and a frame processed that way throughout.
\<close>

definition security_one ::
  "(u64 \<Rightarrow> u64) \<Rightarrow> f64 \<Rightarrow> f64 \<Rightarrow> opensase_worker \<Rightarrow> vlib_buffer
     \<Rightarrow> (vlib_buffer \<times> opensase_security_next) \<times> opensase_worker" where
  "security_one xxh tc tu w b =
     (security_out b (fst (security_lookup xxh tc w b)),
      security_update tu (snd (security_lookup xxh tc w b)) b
        (fst (fst (security_lookup xxh tc w b))))"

fun security_seq ::
  "(u64 \<Rightarrow> u64) \<Rightarrow> frame_clock \<Rightarrow> nat \<Rightarrow> opensase_worker \<Rightarrow> vlib_buffer list
     \<Rightarrow> (vlib_buffer \<times> opensase_security_next) list \<times> opensase_worker"
where
  "security_seq xxh clk k w [] = ([], w)"
| "security_seq xxh clk k w (b # bs) =
     (fst (security_one xxh (created_at clk k) (updated_at clk k) w b)
        # fst (security_seq xxh clk (Suc k)
                 (snd (security_one xxh (created_at clk k) (updated_at clk k) w b)) bs),
      snd (security_seq xxh clk (Suc k)
             (snd (security_one xxh (created_at clk k) (updated_at clk k) w b)) bs))"

text \<open>
  The session as \<open>opensase_session_lookup_or_create\<close> initialises it for a buffer, and
  a session after the statistics updates for a list of buffers, each with its place in
  the frame.
\<close>

definition fresh_session :: "f64 \<Rightarrow> vlib_buffer \<Rightarrow> opensase_session" where
  "fresh_session now b =
     session_zero
       \<lparr>s_src_addr := src_address (b_ip4 b), s_dst_addr := dst_address (b_ip4 b),
        s_src_port := fst (extract_ports b), s_dst_port := snd (extract_ports b),
        s_protocol := protocol (b_ip4 b), s_state := OPENSASE_SESSION_NEW,
        s_last_active := now\<rparr>"

definition touch_all ::
  "frame_clock \<Rightarrow> (nat \<times> vlib_buffer) list \<Rightarrow> opensase_session \<Rightarrow> opensase_session" where
  "touch_all clk ps s =
     foldl (\<lambda>s p. session_touch (updated_at clk (fst p)) (b_length_in_chain (snd p)) s) s ps"

text \<open>
  The buffers of a frame, each with its place in the frame (the first buffer of \<open>bufs\<close>
  being the \<open>k\<close>-th), whose key the session hash of \<open>w\<close> sends to session \<open>j\<close>.
\<close>

definition session_packets ::
  "(u64 \<Rightarrow> u64) \<Rightarrow> opensase_worker \<Rightarrow> nat \<Rightarrow> nat \<Rightarrow> vlib_buffer list
     \<Rightarrow> (nat \<times> vlib_buffer) list" where
  "session_packets xxh w j k bufs =
     filter (\<lambda>p. session_hash w (buffer_session_hash xxh (snd p)) = Some j)
       (zip [k ..< k + length bufs] bufs)"

text \<open>What the node makes of a buffer, given the session hash as the frame leaves it.\<close>

definition security_result ::
  "(u64 \<Rightarrow> u64) \<Rightarrow> opensase_worker \<Rightarrow> vlib_buffer \<Rightarrow> vlib_buffer \<times> opensase_security_next" where
  "security_result xxh w b =
     (case session_hash w (buffer_session_hash xxh b) of
        Some j \<Rightarrow> (b\<lparr>b_opaque2 := (b_opaque2 b)\<lparr>op_session_idx := of_nat j\<rparr>\<rparr>,
                   OPENSASE_SECURITY_NEXT_POLICY)
      | None \<Rightarrow> (b\<lparr>b_opaque2 := (b_opaque2 b)\<lparr>op_session_idx := - 1\<rparr>\<rparr>,
                 OPENSASE_SECURITY_NEXT_DROP))"

text \<open>
  The same for the NAT worker.  \<open>nat_wf\<close>: every index the mapping hash holds is within
  the mapping vector.  \<open>nat_step w w'\<close>: the mapping vector of \<open>w'\<close> starts with that of
  \<open>w\<close> and every key of the mapping hash keeps its index.  \<open>nat_result\<close>: what the node
  makes of a buffer, given the mapping hash and the mappings as the frame leaves them.
\<close>

definition nat_wf :: "nat_worker \<Rightarrow> bool" where
  "nat_wf w \<longleftrightarrow> (\<forall>k i. mapping_hash w k = Some i \<longrightarrow> i < length (mappings w))"

definition nat_step :: "nat_worker \<Rightarrow> nat_worker \<Rightarrow> bool" where
  "nat_step w w' \<longleftrightarrow>
     length (mappings w) \<le> length (mappings w')
     \<and> take (length (mappings w)) (mappings w') = mappings w
     \<and> (\<forall>k i. mapping_hash w k = Some i \<longrightarrow> mapping_hash w' k = Some i)"

definition nat_result ::
  "(u64 \<Rightarrow> u64) \<Rightarrow> nat_worker \<Rightarrow> vlib_buffer \<Rightarrow> vlib_buffer \<times> opensase_nat_next" where
  "nat_result xxh w b =
     (case mapping_hash w (nat_buffer_key xxh b) of
        Some i \<Rightarrow> (nat_translate b (mappings w ! i), OPENSASE_NAT_NEXT_ENCRYPT)
      | None \<Rightarrow> (b, OPENSASE_NAT_NEXT_DROP))"

section \<open>QoS marking: DSCP, ECN and the header checksum\<close>

lemma high_bits_clear:
  fixes d :: u8
  assumes "d < 64"
  shows "\<not> bit d (6 + n)"
proof -
  have "d < 2 ^ 6" using assms by simp
  then have "d AND mask 6 = d" by (rule less_mask_eq)
  then have "bit d (6 + n) = bit (d AND mask 6) (6 + n)" by simp
  then show ?thesis by (simp add: bit_and_iff bit_mask_iff)
qed

lemma dscp_upper_bits:
  fixes d x :: u8
  assumes "d < 64"
  shows "drop_bit 2 (push_bit 2 d OR (x AND 3)) = d"
proof (rule bit_word_eqI)
  fix n assume n: "n < LENGTH(8)"
  have three: "(3 :: u8) = mask 2" by (simp add: mask_eq_exp_minus_1)
  show "bit (drop_bit 2 (push_bit 2 d OR (x AND 3))) n = bit d n"
  proof (cases "n < 6")
    case True
    then show ?thesis
      by (simp add: three bit_drop_bit_eq bit_or_iff bit_push_bit_iff bit_and_iff bit_mask_iff)
  next
    case False
    then obtain k where k: "n = 6 + k" by (metis le_add_diff_inverse not_less)
    have "\<not> bit d n" using high_bits_clear [OF assms] k by simp
    moreover have "\<not> bit (drop_bit 2 (push_bit 2 d OR (x AND 3))) n"
      using n k
      by (simp add: three bit_drop_bit_eq bit_or_iff bit_push_bit_iff bit_and_iff bit_mask_iff)
    ultimately show ?thesis by simp
  qed
qed

lemma ecn_lower_bits:
  fixes d x :: u8
  shows "(push_bit 2 d OR (x AND 3)) AND 3 = x AND 3"
proof (rule bit_word_eqI)
  fix n assume n: "n < LENGTH(8)"
  have three: "(3 :: u8) = mask 2" by (simp add: mask_eq_exp_minus_1)
  show "bit ((push_bit 2 d OR (x AND 3)) AND 3) n = bit (x AND 3) n"
    by (auto simp add: three bit_or_iff bit_push_bit_iff bit_and_iff bit_mask_iff)
qed

lemma qos_to_dscp_small_nat: "n < 5 \<Longrightarrow> qos_to_dscp ! n < 64"
  by (simp add: qos_to_dscp_def nth_Cons split: nat.splits)

lemma qos_to_dscp_small: "c < OPENSASE_QOS_N_CLASSES \<Longrightarrow> qos_to_dscp ! unat c < 64"
  by (rule qos_to_dscp_small_nat) (simp add: OPENSASE_QOS_N_CLASSES_def word_less_nat_alt)

lemma qos_to_dscp_table:
  "qos_to_dscp ! unat OPENSASE_QOS_REALTIME = 46"
  "qos_to_dscp ! unat OPENSASE_QOS_BUSINESS_CRITICAL = 26"
  "qos_to_dscp ! unat OPENSASE_QOS_DEFAULT = 0"
  "qos_to_dscp ! unat OPENSASE_QOS_BULK = 10"
  "qos_to_dscp ! unat OPENSASE_QOS_SCAVENGER = 8"
  by (simp_all add: qos_to_dscp_def OPENSASE_QOS_REALTIME_def OPENSASE_QOS_BUSINESS_CRITICAL_def
      OPENSASE_QOS_DEFAULT_def OPENSASE_QOS_BULK_def OPENSASE_QOS_SCAVENGER_def)

lemma apply_dscp_tos:
  "tos (apply_dscp ip4 qos_class) =
     push_bit 2 (if qos_class < OPENSASE_QOS_N_CLASSES then qos_to_dscp ! unat qos_class else 0)
       OR (tos ip4 AND 3)"
  by (simp add: apply_dscp_def Let_def)

text \<open>
  The part of the marking that holds for every header and class: the upper six bits of
  the ToS byte become the class's DSCP, the two ECN bits stay.
\<close>

lemma apply_dscp_marks:
  assumes "qos_class < OPENSASE_QOS_N_CLASSES"
  shows "drop_bit 2 (tos (apply_dscp ip4 qos_class)) = qos_to_dscp ! unat qos_class"
    and "tos (apply_dscp ip4 qos_class) AND 3 = tos ip4 AND 3"
proof -
  have t: "tos (apply_dscp ip4 qos_class)
             = push_bit 2 (qos_to_dscp ! unat qos_class) OR (tos ip4 AND 3)"
    using assms by (simp add: apply_dscp_tos)
  show "drop_bit 2 (tos (apply_dscp ip4 qos_class)) = qos_to_dscp ! unat qos_class"
    unfolding t by (rule dscp_upper_bits [OF qos_to_dscp_small [OF assms]])
  show "tos (apply_dscp ip4 qos_class) AND 3 = tos ip4 AND 3"
    unfolding t by (rule ecn_lower_bits)
qed

text \<open>
  The checksum that \<open>apply_dscp\<close> stores is the checksum of the header before the new
  ToS byte is written.
\<close>

lemma apply_dscp_checksum_before_store:
  "tos (apply_dscp ip4 qos_class) \<noteq> tos ip4 \<Longrightarrow>
     checksum (apply_dscp ip4 qos_class) = ip4_header_checksum ip4"
  by (auto simp add: apply_dscp_def Let_def)

text \<open>
  Claim C6.  QoS marking rewrites the DSCP bits per class, preserves the ECN bits and
  leaves the header checksum correct for the updated header.  The marking is as claimed
  (\<open>apply_dscp_marks\<close>, \<open>qos_to_dscp_table\<close>), the checksum is not: for the example
  header, valid on arrival with ToS 0, marking as realtime stores ToS 184 and the
  checksum 0xC034 of the old header, while the updated header's checksum is 0x0834.
\<close>

theorem apply_dscp_stale_checksum:
  "ip4_header_checksum ex_hdr = checksum ex_hdr
   \<and> tos (apply_dscp ex_hdr OPENSASE_QOS_REALTIME) = 184
   \<and> checksum (apply_dscp ex_hdr OPENSASE_QOS_REALTIME) = 0xC034
   \<and> ip4_header_checksum (apply_dscp ex_hdr OPENSASE_QOS_REALTIME) = 0x0834"
  by (simp add: apply_dscp_def ex_hdr_def OPENSASE_QOS_REALTIME_def OPENSASE_QOS_N_CLASSES_def
      qos_to_dscp_def ip4_header_checksum_def ip4_header_words_def ip_csum_fold_def ip4_addr_def)

section \<open>The scavenger rate limit\<close>

text \<open>A frame of fewer than four buffers never reaches the bucket.\<close>

lemma short_frame_cases:
  assumes "length (bufs :: 'a list) < 4"
  obtains "bufs = []" | b0 where "bufs = [b0]" | b0 b1 where "bufs = [b0, b1]"
    | b0 b1 b2 where "bufs = [b0, b1, b2]"
proof (cases bufs)
  case Nil
  then show ?thesis using that by simp
next
  case (Cons b0 r0)
  note c0 = this
  show ?thesis
  proof (cases r0)
    case Nil
    with c0 show ?thesis using that by simp
  next
    case (Cons b1 r1)
    note c1 = this
    show ?thesis
    proof (cases r1)
      case Nil
      with c1 c0 show ?thesis using that by simp
    next
      case (Cons b2 r2)
      with c1 c0 assms have "r2 = []" by simp
      with Cons c1 c0 show ?thesis using that by simp
    qed
  qed
qed

lemma qos_short_frame_never_limited:
  assumes "length bufs < 4"
  shows "snd (snd (opensase_qos_node now w lims bufs)) = lims"
    and "list_all (\<lambda>r. snd r = OPENSASE_QOS_NEXT_IP4_LOOKUP)
           (fst (opensase_qos_node now w lims bufs))"
proof -
  show "snd (snd (opensase_qos_node now w lims bufs)) = lims"
    using assms by (cases bufs rule: short_frame_cases) (simp_all add: qos_single_def)
  show "list_all (\<lambda>r. snd r = OPENSASE_QOS_NEXT_IP4_LOOKUP)
          (fst (opensase_qos_node now w lims bufs))"
    using assms by (cases bufs rule: short_frame_cases) (simp_all add: qos_single_def)
qed

text \<open>
  Claim C5.  Every scavenger packet with a configured rate limit is checked against the
  tenant's bucket, wherever it stands in the batch.  The node checks only the first
  packet of each group of four: a frame of one scavenger packet of tenant 7, whose
  bucket (100 Mbps) is empty and would refuse the packet, is forwarded with the
  rate-limited flag clear; so is a scavenger packet in second place of a group of four.
\<close>

theorem qos_rate_limit_skipped:
  "op_qos_class (b_opaque2 ex_scavenger) = OPENSASE_QOS_SCAVENGER
   \<and> rate_bps (ex_limiters 7 4) = 12500000
   \<and> fst (rate_limit_check (ex_limiters 7 4) (b_length_in_chain ex_scavenger) 5) = False
   \<and> map snd (fst (opensase_qos_node 5 ex_worker ex_limiters [ex_scavenger]))
       = [OPENSASE_QOS_NEXT_IP4_LOOKUP]
   \<and> map (op_flags \<circ> b_opaque2 \<circ> fst) (fst (opensase_qos_node 5 ex_worker ex_limiters [ex_scavenger]))
       = [0]
   \<and> map snd (fst (opensase_qos_node 5 ex_worker ex_limiters [ex_buf, ex_scavenger, ex_buf, ex_buf]))
       = [OPENSASE_QOS_NEXT_IP4_LOOKUP, OPENSASE_QOS_NEXT_IP4_LOOKUP,
          OPENSASE_QOS_NEXT_IP4_LOOKUP, OPENSASE_QOS_NEXT_IP4_LOOKUP]
   \<and> map snd (fst (opensase_qos_node 5 ex_worker ex_limiters [ex_scavenger, ex_buf, ex_buf, ex_buf]))
       = [OPENSASE_QOS_NEXT_DROP, OPENSASE_QOS_NEXT_IP4_LOOKUP,
          OPENSASE_QOS_NEXT_IP4_LOOKUP, OPENSASE_QOS_NEXT_IP4_LOOKUP]"
  by (simp add: rate_limit_check_def ex_limiters_def ex_bucket_def ex_buf_def ex_scavenger_def
      qos_single_def qos_quad_def qos_mark_def ex_opaque_def init_rate_limiter_def
      OPENSASE_QOS_SCAVENGER_def OPENSASE_QOS_DEFAULT_def MAX_TENANT_LIMITERS_def
      OPENSASE_FLAG_RATE_LIMITED_def Let_def)

section \<open>The fall-back IPS scanner\<close>

text \<open>The loop returns from inside exactly when some offset below the bound hits.\<close>

lemma scan_loop_iff: "scan_loop hit i bound \<longleftrightarrow> (\<exists>j. i \<le> j \<and> j < bound \<and> hit j)"
proof (induction hit i bound rule: scan_loop.induct)
  case (1 hit i bound)
  show ?case
  proof (cases "i < bound")
    case False
    then show ?thesis by (subst scan_loop.simps) auto
  next
    case True
    show ?thesis
    proof (cases "hit i")
      case True
      with \<open>i < bound\<close> show ?thesis by (subst scan_loop.simps) auto
    next
      case False
      with \<open>i < bound\<close> have "scan_loop hit i bound = scan_loop hit (Suc i) bound"
        by (subst scan_loop.simps) simp
      also have "\<dots> \<longleftrightarrow> (\<exists>j. Suc i \<le> j \<and> j < bound \<and> hit j)"
        using "1.IH" \<open>i < bound\<close> False by simp
      also have "\<dots> \<longleftrightarrow> (\<exists>j. i \<le> j \<and> j < bound \<and> hit j)"
        using False by (metis Suc_leD Suc_leI le_neq_implies_less)
      finally show ?thesis .
    qed
  qed
qed

text \<open>
  Which occurrences the scanner reports: a \<open>${j\<close> or \<open>${J\<close> that starts more than ten
  bytes before the end of the scanned bytes, or a case-insensitive \<open>UNION\<close> that starts
  more than six bytes before the end.
\<close>

lemma simple_pattern_scan_matched:
  assumes "res_matched result = 0"
  shows "res_matched (simple_pattern_scan data len result) \<noteq> 0 \<longleftrightarrow>
           (len \<ge> 10 \<and> (\<exists>j < unat (len - 10). jndi_at data j))
         \<or> (len \<ge> 6 \<and> (\<exists>j < unat (len - 6). union_at data j))"
  using assms by (simp add: simple_pattern_scan_def scan_loop_iff)

text \<open>
  Claim C8.  The fall-back scanner detects every \<open>${jndi:\<close> and every case-insensitive
  \<open>UNION\<close> wherever it lies in the scanned bytes, with drop action.  It misses the ones
  near the end: a ten-byte TCP payload \<open>${jndi:abc\<close> is not matched and the packet goes
  on to NAT, and \<open>UNION\<close> at the end of \<open>id=1 UNION\<close> is not matched either; one more
  payload byte after \<open>${jndi:abc\<close> and the packet is dropped.
\<close>

theorem fallback_scanner_misses_tail:
  "res_matched (simple_pattern_scan ex_jndi_payload 10 ex_result) = 0
   \<and> fst (security_inspect_one ex_ips_worker ex_ips_hdr (ex_tcp_header @ ex_jndi_payload) ex_result)
       = SECURITY_INSPECT_NEXT_NAT
   \<and> res_matched (simple_pattern_scan ''id=1 UNION'' 10 ex_result) = 0
   \<and> fst (security_inspect_one ex_ips_worker (ex_hdr\<lparr>ip_length := clib_host_to_net_u16 51\<rparr>)
            (ex_tcp_header @ ex_jndi_payload @ ''d'') ex_result)
       = SECURITY_INSPECT_NEXT_DROP"
  by (simp add: simple_pattern_scan_def ex_jndi_payload_def ex_result_def
      security_inspect_one_def ips_scan_packet_def ips_scan_payload_def ex_ips_hdr_def
      ex_hdr_def ex_tcp_header_def clib_net_to_host_u16_def clib_host_to_net_u16_def
      clib_byte_swap_u16_def IP_PROTOCOL_TCP_def ex_ips_worker_def union_at_def jndi_at_def
      nth_append scan_loop.simps)

section \<open>The policy node: where a packet goes next\<close>

lemma policy_apply_next:
  "snd (fst (policy_apply osm w b)) =
     (case opensase_policy_match osm (b_ip4 b) (fst (extract_ports b)) (snd (extract_ports b))
             (op_tenant_id (b_opaque2 b)) of
        Some k \<Rightarrow>
          if pol_action (policies osm ! k) = OPENSASE_ACTION_DENY then OPENSASE_POLICY_NEXT_DROP
          else if pol_action (policies osm ! k) = OPENSASE_ACTION_INSPECT_DLP
          then OPENSASE_POLICY_NEXT_DLP
          else OPENSASE_POLICY_NEXT_CLASSIFY
      | None \<Rightarrow>
          if dlp_enabled osm \<noteq> 0 then OPENSASE_POLICY_NEXT_DLP
          else OPENSASE_POLICY_NEXT_CLASSIFY)"
  by (simp add: policy_apply_def Let_def split_def split: option.splits)

text \<open>Every output of the node is what \<open>policy_apply\<close> makes of the buffer in that place.\<close>

lemma policy_node_pointwise:
  "list_all2 (\<lambda>b r. \<exists>w'. r = fst (policy_apply osm w' b)) bufs
     (fst (opensase_policy_node osm w bufs))"
proof (induction osm w bufs rule: opensase_policy_node.induct)
  case (1 osm w b0 b1 b2 b3 bs)
  note ih = "1.IH" [OF refl prod.collapse refl prod.collapse refl prod.collapse
                      refl prod.collapse]
  show ?case
    using ih by (simp add: split_def Let_def) blast
qed (auto simp add: split_def Let_def)


text \<open>
  Claim C3, as amended.  A packet whose matched policy denies goes to drop; one whose
  matched policy is \<open>inspect_dlp\<close> goes to the DLP scanner; one that matches any other
  policy, \<open>allow\<close> included, goes to the application classifier; a packet that matches
  no policy goes to the DLP scanner if DLP is globally enabled and to the application
  classifier otherwise.  No packet bypasses the pipeline.
\<close>

theorem policy_next_stage:
  assumes "i < length bufs"
  shows "length (fst (opensase_policy_node osm w bufs)) = length bufs
   \<and> snd (fst (opensase_policy_node osm w bufs) ! i) =
       (case opensase_policy_match osm (b_ip4 (bufs ! i)) (fst (extract_ports (bufs ! i)))
               (snd (extract_ports (bufs ! i))) (op_tenant_id (b_opaque2 (bufs ! i))) of
          Some k \<Rightarrow>
            if pol_action (policies osm ! k) = OPENSASE_ACTION_DENY then OPENSASE_POLICY_NEXT_DROP
            else if pol_action (policies osm ! k) = OPENSASE_ACTION_INSPECT_DLP
            then OPENSASE_POLICY_NEXT_DLP
            else OPENSASE_POLICY_NEXT_CLASSIFY
        | None \<Rightarrow>
            if dlp_enabled osm \<noteq> 0 then OPENSASE_POLICY_NEXT_DLP
            else OPENSASE_POLICY_NEXT_CLASSIFY)"
proof -
  note pw = policy_node_pointwise [of osm bufs w]
  have len: "length (fst (opensase_policy_node osm w bufs)) = length bufs"
    using pw by (simp add: list_all2_lengthD)
  from pw assms obtain w' where
    "fst (opensase_policy_node osm w bufs) ! i = fst (policy_apply osm w' (bufs ! i))"
    by (auto dest: list_all2_nthD)
  then show ?thesis using len by (simp add: policy_apply_next)
qed

lemmas ex_policy_eval =
  opensase_policy_match_def policy_slot_unused_def policy_predicates_def extract_ports_def
  ex_allow_main_def ex_main_def ex_policy_def ex_buf_def ex_hdr_def ex_opaque_def
  IP_PROTOCOL_TCP_def IP_PROTOCOL_UDP_def clib_net_to_host_u16_def clib_host_to_net_u16_def
  clib_byte_swap_u16_def OPENSASE_ACTION_ALLOW_def OPENSASE_ACTION_DENY_def
  OPENSASE_ACTION_INSPECT_DLP_def OPENSASE_ACTION_LOG_def OPENSASE_QOS_DEFAULT_def

theorem policy_next_stage_witness:
  "(0 :: nat) < length [ex_buf]
   \<and> snd (fst (opensase_policy_node ex_allow_main ex_worker [ex_buf]) ! 0)
       = OPENSASE_POLICY_NEXT_CLASSIFY"
  using policy_next_stage [of 0 "[ex_buf]" ex_allow_main ex_worker]
  by (simp add: ex_policy_eval)

text \<open>
  The claim as stated fails for a packet that matches an \<open>allow\<close> policy while DLP is
  globally enabled: it neither bypasses the pipeline nor goes to the DLP scanner, it
  goes to the application classifier.
\<close>

theorem allow_policy_goes_to_classifier:
  "opensase_policy_match ex_allow_main (b_ip4 ex_buf) 33000 443 7 = Some 0
   \<and> pol_action (policies ex_allow_main ! 0) = OPENSASE_ACTION_ALLOW
   \<and> dlp_enabled ex_allow_main = 1
   \<and> map snd (fst (opensase_policy_node ex_allow_main ex_worker [ex_buf]))
       = [OPENSASE_POLICY_NEXT_CLASSIFY]"
  by (simp add: ex_policy_eval policy_apply_def ex_worker_def)

section \<open>Prefixes: the mask of the code and the words of the specification\<close>

lemma ff00_mask: "(0xff00 :: u32) = push_bit 8 (mask 8)"
  by (simp add: mask_eq_exp_minus_1)

text \<open>\<open>clib_byte_swap_u32\<close> moves byte \<open>k\<close> to byte \<open>3 - k\<close>.\<close>

lemma bit_byte_swap_u32:
  "bit (clib_byte_swap_u32 x) n \<longleftrightarrow>
     (if n < 8 then bit x (n + 24)
      else if n < 16 then bit x (n + 8)
      else if n < 24 then bit x (n - 8)
      else n < 32 \<and> bit x (n - 24))"
  unfolding clib_byte_swap_u32_def ff00_mask
  by (auto simp add: bit_simps ac_simps dest: bit_imp_le_length)

lemma byte_swap_u32_and:
  "clib_byte_swap_u32 (x AND y) = clib_byte_swap_u32 x AND clib_byte_swap_u32 y"
  by (rule bit_word_eqI) (simp add: bit_byte_swap_u32 bit_simps)

lemma byte_swap_u32_twice: "clib_byte_swap_u32 (clib_byte_swap_u32 x) = x"
proof (rule bit_word_eqI)
  fix n assume n: "n < LENGTH(32)"
  consider "n < 8" | m where "n = m + 8" "m < 8" | m where "n = m + 16" "m < 8"
    | m where "n = m + 24" "m < 8"
  proof -
    have "n < 8 \<or> n = (n - 8) + 8 \<and> n - 8 < 8 \<or> n = (n - 16) + 16 \<and> n - 16 < 8
        \<or> n = (n - 24) + 24 \<and> n - 24 < 8"
      using n by simp arith
    then show ?thesis using that by blast
  qed
  then show "bit (clib_byte_swap_u32 (clib_byte_swap_u32 x)) n = bit x n"
    by cases (simp_all add: bit_byte_swap_u32 add.commute)
qed

lemma byte_swap_u32_inj: "clib_byte_swap_u32 a = clib_byte_swap_u32 b \<longleftrightarrow> a = b"
proof
  assume "clib_byte_swap_u32 a = clib_byte_swap_u32 b"
  then have "clib_byte_swap_u32 (clib_byte_swap_u32 a) = clib_byte_swap_u32 (clib_byte_swap_u32 b)"
    by simp
  then show "a = b" by (simp only: byte_swap_u32_twice)
qed simp

lemma and_high_mask_eq_iff:
  fixes x y :: u32
  shows "x AND push_bit k (- 1) = y AND push_bit k (- 1) \<longleftrightarrow> drop_bit k x = drop_bit k y"
proof
  assume e: "x AND push_bit k (- 1) = y AND push_bit k (- 1)"
  show "drop_bit k x = drop_bit k y"
  proof (rule bit_word_eqI)
    fix n assume "n < LENGTH(32)"
    from e have "bit (x AND push_bit k (- 1)) (k + n) = bit (y AND push_bit k (- 1)) (k + n)"
      by simp
    then show "bit (drop_bit k x) n = bit (drop_bit k y) n"
      by (auto simp add: bit_simps dest: bit_imp_le_length)
  qed
next
  assume e: "drop_bit k x = drop_bit k y"
  show "x AND push_bit k (- 1) = y AND push_bit k (- 1)"
  proof (rule bit_word_eqI)
    fix n assume "n < LENGTH(32)"
    from e have "bit (drop_bit k x) (n - k) = bit (drop_bit k y) (n - k)"
      by simp
    then show "bit (x AND push_bit k (- 1)) n = bit (y AND push_bit k (- 1)) n"
      by (auto simp add: bit_simps)
  qed
qed

lemma prefix_mask_in_range:
  assumes "0 < len" "len \<le> 32"
  shows "prefix_mask len = push_bit (32 - unat len) (- 1)"
proof -
  from assms have i: "0 < uint len" "uint len \<le> 32"
    by (simp_all add: word_less_def word_le_def)
  then have r: "0 \<le> 32 - uint len" "32 - uint len < 32"
    by simp_all
  have "(32 - uint len) mod 32 = 32 - uint len"
    using r by (rule mod_pos_pos_trivial)
  moreover have "nat (32 - uint len) = 32 - unat len"
    using i by (simp add: nat_diff_distrib')
  ultimately show ?thesis by (simp only: prefix_mask_def)
qed

lemma prefix_covers_spec:
  assumes "0 < len" "len \<le> 32"
  shows "prefix_covers prefix len addr \<longleftrightarrow> ip4_in_prefix prefix len addr"
proof -
  let ?m = "push_bit (32 - unat len) (- 1) :: u32"
  have "prefix_covers prefix len addr
      \<longleftrightarrow> addr AND clib_byte_swap_u32 ?m = prefix AND clib_byte_swap_u32 ?m"
    by (simp only: prefix_covers_def prefix_mask_in_range [OF assms] clib_host_to_net_u32_def)
  also have "\<dots> \<longleftrightarrow> clib_byte_swap_u32 (addr AND clib_byte_swap_u32 ?m)
                    = clib_byte_swap_u32 (prefix AND clib_byte_swap_u32 ?m)"
    by (simp only: byte_swap_u32_inj)
  also have "\<dots> \<longleftrightarrow> clib_byte_swap_u32 addr AND ?m = clib_byte_swap_u32 prefix AND ?m"
    by (simp only: byte_swap_u32_and byte_swap_u32_twice)
  also have "\<dots> \<longleftrightarrow> ip4_in_prefix prefix len addr"
    by (simp only: and_high_mask_eq_iff ip4_in_prefix_def clib_net_to_host_u32_def)
  finally show ?thesis .
qed

lemma ip4_in_prefix_zero: "ip4_in_prefix prefix 0 addr"
  by (simp add: ip4_in_prefix_def)

text \<open>
  For prefix lengths of at most 32 the six tests of the code say what the specification
  says.
\<close>

lemma policy_predicates_spec:
  assumes s: "pol_src_prefix_len p \<le> 32" and d: "pol_dst_prefix_len p \<le> 32"
  shows "policy_predicates p ip4 sp dp tid \<longleftrightarrow> spec_policy_matches p ip4 sp dp tid"
proof -
  have src: "(pol_src_prefix_len p > 0
        \<and> \<not> prefix_covers (pol_src_prefix p) (pol_src_prefix_len p) (src_address ip4))
      \<longleftrightarrow> \<not> ip4_in_prefix (pol_src_prefix p) (pol_src_prefix_len p) (src_address ip4)"
  proof (cases "pol_src_prefix_len p = 0")
    case True
    then show ?thesis by (simp add: ip4_in_prefix_zero)
  next
    case False
    then have "0 < pol_src_prefix_len p" by (simp add: word_gt_0)
    then show ?thesis by (simp add: prefix_covers_spec [OF _ s])
  qed
  have dst: "(pol_dst_prefix_len p > 0
        \<and> \<not> prefix_covers (pol_dst_prefix p) (pol_dst_prefix_len p) (dst_address ip4))
      \<longleftrightarrow> \<not> ip4_in_prefix (pol_dst_prefix p) (pol_dst_prefix_len p) (dst_address ip4)"
  proof (cases "pol_dst_prefix_len p = 0")
    case True
    then show ?thesis by (simp add: ip4_in_prefix_zero)
  next
    case False
    then have "0 < pol_dst_prefix_len p" by (simp add: word_gt_0)
    then show ?thesis by (simp add: prefix_covers_spec [OF _ d])
  qed
  show ?thesis
    unfolding policy_predicates_def spec_policy_matches_def src dst
    by (auto simp add: not_less not_le)
qed

section \<open>The policy matcher: which policy wins\<close>

text \<open>
  The scan, started at index \<open>i\<close> with \<open>(best_match, best_priority)\<close>, either keeps
  what it started with, and then no candidate of the list has a priority below
  \<open>best_priority\<close>; or it returns a candidate \<open>q\<close> of the list with a priority below
  \<open>best_priority\<close>, strictly better than every candidate before it and at least as
  good as every candidate after it.
\<close>

lemma policy_scan_result:
  "policy_scan ip4 sp dp tid ps i (bm, bp) = (r, rp) \<Longrightarrow>
     (r = bm \<and> rp = bp
        \<and> (\<forall>x \<in> set ps. \<not> policy_slot_unused x \<and> policy_predicates x ip4 sp dp tid
              \<longrightarrow> bp \<le> pol_priority x))
   \<or> (\<exists>pre q post. ps = pre @ q # post \<and> r = Some (i + length pre) \<and> rp = pol_priority q
        \<and> \<not> policy_slot_unused q \<and> policy_predicates q ip4 sp dp tid \<and> rp < bp
        \<and> (\<forall>x \<in> set pre. \<not> policy_slot_unused x \<and> policy_predicates x ip4 sp dp tid
              \<longrightarrow> rp < pol_priority x)
        \<and> (\<forall>x \<in> set post. \<not> policy_slot_unused x \<and> policy_predicates x ip4 sp dp tid
              \<longrightarrow> rp \<le> pol_priority x))"
proof (induction ps arbitrary: i bm bp)
  case Nil
  then show ?case by simp
next
  case (Cons p ps)
  let ?cand = "\<lambda>x. \<not> policy_slot_unused x \<and> policy_predicates x ip4 sp dp tid"
  show ?case
  proof (cases "?cand p \<and> pol_priority p < bp")
    case True
    with Cons.prems
    have run: "policy_scan ip4 sp dp tid ps (Suc i) (Some i, pol_priority p) = (r, rp)"
      by simp
    from Cons.IH [OF run] show ?thesis
    proof (elim disjE exE conjE)
      assume "r = Some i" "rp = pol_priority p"
        and rest: "\<forall>x \<in> set ps. ?cand x \<longrightarrow> pol_priority p \<le> pol_priority x"
      then have "p # ps = [] @ p # ps \<and> r = Some (i + length ([] :: opensase_policy list))
          \<and> rp = pol_priority p \<and> ?cand p \<and> rp < bp
          \<and> (\<forall>x \<in> set ([] :: opensase_policy list). ?cand x \<longrightarrow> rp < pol_priority x)
          \<and> (\<forall>x \<in> set ps. ?cand x \<longrightarrow> rp \<le> pol_priority x)"
        using True by simp
      then show ?thesis by blast
    next
      fix pre q post
      assume d: "ps = pre @ q # post" "r = Some (Suc i + length pre)" "rp = pol_priority q"
        "\<not> policy_slot_unused q" "policy_predicates q ip4 sp dp tid" "rp < pol_priority p"
        "\<forall>x \<in> set pre. ?cand x \<longrightarrow> rp < pol_priority x"
        "\<forall>x \<in> set post. ?cand x \<longrightarrow> rp \<le> pol_priority x"
      then have "p # ps = (p # pre) @ q # post \<and> r = Some (i + length (p # pre))
          \<and> rp = pol_priority q \<and> ?cand q \<and> rp < bp
          \<and> (\<forall>x \<in> set (p # pre). ?cand x \<longrightarrow> rp < pol_priority x)
          \<and> (\<forall>x \<in> set post. ?cand x \<longrightarrow> rp \<le> pol_priority x)"
        using True by auto
      then show ?thesis by blast
    qed
  next
    case False
    with Cons.prems
    have run: "policy_scan ip4 sp dp tid ps (Suc i) (bm, bp) = (r, rp)"
      by (simp split: if_splits)
    from False have p: "?cand p \<longrightarrow> bp \<le> pol_priority p" by auto
    from Cons.IH [OF run] show ?thesis
    proof (elim disjE exE conjE)
      assume "r = bm" "rp = bp"
        and rest: "\<forall>x \<in> set ps. ?cand x \<longrightarrow> bp \<le> pol_priority x"
      with p show ?thesis by simp
    next
      fix pre q post
      assume d: "ps = pre @ q # post" "r = Some (Suc i + length pre)" "rp = pol_priority q"
        "\<not> policy_slot_unused q" "policy_predicates q ip4 sp dp tid" "rp < bp"
        "\<forall>x \<in> set pre. ?cand x \<longrightarrow> rp < pol_priority x"
        "\<forall>x \<in> set post. ?cand x \<longrightarrow> rp \<le> pol_priority x"
      then have "p # ps = (p # pre) @ q # post \<and> r = Some (i + length (p # pre))
          \<and> rp = pol_priority q \<and> ?cand q \<and> rp < bp
          \<and> (\<forall>x \<in> set (p # pre). ?cand x \<longrightarrow> rp < pol_priority x)
          \<and> (\<forall>x \<in> set post. ?cand x \<longrightarrow> rp \<le> pol_priority x)"
        using p by auto
      then show ?thesis by blast
    qed
  qed
qed

lemma u32_max_le: "(- 1 :: u32) \<le> x \<Longrightarrow> x = - 1"
  by (simp add: word_order.extremum_unique)

text \<open>
  What the scan returns, in the terms of the code's own tests: with the sentinel
  \<open>best_priority = ~0\<close> and the strict comparison, a candidate of priority
  \<open>0xFFFFFFFF\<close> is never taken.
\<close>

lemma policy_match_scan:
  "case opensase_policy_match osm ip4 sp dp tid of
     None \<Rightarrow>
       (\<forall>j < length (policies osm).
          \<not> policy_slot_unused (policies osm ! j)
          \<and> policy_predicates (policies osm ! j) ip4 sp dp tid
          \<longrightarrow> pol_priority (policies osm ! j) = - 1)
   | Some i \<Rightarrow>
       i < length (policies osm)
       \<and> \<not> policy_slot_unused (policies osm ! i)
       \<and> policy_predicates (policies osm ! i) ip4 sp dp tid
       \<and> pol_priority (policies osm ! i) \<noteq> - 1
       \<and> (\<forall>j < length (policies osm).
            \<not> policy_slot_unused (policies osm ! j)
            \<and> policy_predicates (policies osm ! j) ip4 sp dp tid
            \<longrightarrow> pol_priority (policies osm ! i) \<le> pol_priority (policies osm ! j))
       \<and> (\<forall>j < i.
            \<not> policy_slot_unused (policies osm ! j)
            \<and> policy_predicates (policies osm ! j) ip4 sp dp tid
            \<longrightarrow> pol_priority (policies osm ! i) < pol_priority (policies osm ! j))"
proof -
  let ?ps = "policies osm"
  let ?cand = "\<lambda>x. \<not> policy_slot_unused x \<and> policy_predicates x ip4 sp dp tid"
  obtain r rp where run: "policy_scan ip4 sp dp tid ?ps 0 (None, - 1) = (r, rp)"
    by (cases "policy_scan ip4 sp dp tid ?ps 0 (None, - 1)") auto
  then have res: "opensase_policy_match osm ip4 sp dp tid = r"
    by (simp add: opensase_policy_match_def)
  from policy_scan_result [OF run] show ?thesis
  proof (elim disjE exE conjE)
    assume rn: "r = None" and all: "\<forall>x \<in> set ?ps. ?cand x \<longrightarrow> - 1 \<le> pol_priority x"
    have last: "pol_priority (?ps ! j) = - 1" if "j < length ?ps" and c: "?cand (?ps ! j)" for j
    proof -
      from that have m: "?ps ! j \<in> set ?ps" by simp
      from all m c have "- 1 \<le> pol_priority (?ps ! j)" by blast
      then show ?thesis by (rule u32_max_le)
    qed
    have "\<forall>j < length ?ps. ?cand (?ps ! j) \<longrightarrow> pol_priority (?ps ! j) = - 1"
      using last by blast
    then show ?thesis unfolding res rn by simp
  next
    fix pre q post
    assume d1: "?ps = pre @ q # post" and d2: "r = Some (0 + length pre)"
      and d3: "rp = pol_priority q"
      and d4: "\<not> policy_slot_unused q" and d5: "policy_predicates q ip4 sp dp tid"
      and d6: "rp < - 1"
      and before: "\<forall>x \<in> set pre. ?cand x \<longrightarrow> rp < pol_priority x"
      and after: "\<forall>x \<in> set post. ?cand x \<longrightarrow> rp \<le> pol_priority x"
    have at: "?ps ! length pre = q" using d1 by simp
    have len: "length pre < length ?ps" using d1 by simp
    have np: "pol_priority q \<noteq> - 1" using d3 d6 by auto
    have b: "pol_priority q < pol_priority (?ps ! j)" if j: "j < length pre" and c: "?cand (?ps ! j)"
      for j
    proof -
      from j d1 have e: "?ps ! j = pre ! j" by (simp add: nth_append)
      from j have m: "pre ! j \<in> set pre" by simp
      from c e have "?cand (pre ! j)" by simp
      with before m have "rp < pol_priority (pre ! j)" by blast
      with e d3 show ?thesis by simp
    qed
    have a: "pol_priority q \<le> pol_priority (?ps ! j)" if j: "j < length ?ps" and c: "?cand (?ps ! j)"
      for j
    proof -
      consider "j < length pre" | "j = length pre" | "j > length pre" by arith
      then show ?thesis
      proof cases
        case 1
        from b [OF 1 c] show ?thesis by (rule less_imp_le)
      next
        case 2
        with at show ?thesis by simp
      next
        case 3
        define k where "k = j - Suc (length pre)"
        with 3 have k: "j = length pre + Suc k" by simp
        with j d1 have kk: "k < length post" by simp
        from k d1 have e: "?ps ! j = post ! k" by (simp add: nth_append)
        from kk have m: "post ! k \<in> set post" by simp
        from c e have "?cand (post ! k)" by simp
        with after m have "rp \<le> pol_priority (post ! k)" by blast
        with e d3 show ?thesis by simp
      qed
    qed
    have rs: "r = Some (length pre)" using d2 by simp
    have "length pre < length ?ps
        \<and> \<not> policy_slot_unused (?ps ! length pre)
        \<and> policy_predicates (?ps ! length pre) ip4 sp dp tid
        \<and> pol_priority (?ps ! length pre) \<noteq> - 1
        \<and> (\<forall>j < length ?ps. ?cand (?ps ! j)
              \<longrightarrow> pol_priority (?ps ! length pre) \<le> pol_priority (?ps ! j))
        \<and> (\<forall>j < length pre. ?cand (?ps ! j)
              \<longrightarrow> pol_priority (?ps ! length pre) < pol_priority (?ps ! j))"
      unfolding at using len d4 d5 np a b by blast
    then show ?thesis unfolding res rs by simp
  qed
qed

text \<open>
  Claim C4, as amended.  Take a policy vector whose slots in use (not both policy id 0
  and priority 0) have source and destination prefix lengths of at most 32.  Among the
  slots in use whose six predicates all match the packet, in the specification's sense
  (a zero predicate matching anything), the matcher returns the first one of lowest
  numeric priority, ties going to the earlier slot, and that priority is below
  \<open>0xFFFFFFFF\<close>.  It returns no policy only when every such slot has the priority
  \<open>0xFFFFFFFF\<close>, in particular when there is none.
\<close>

theorem policy_match_first_best:
  assumes lens: "\<forall>p \<in> set (policies osm). \<not> policy_slot_unused p
                   \<longrightarrow> pol_src_prefix_len p \<le> 32 \<and> pol_dst_prefix_len p \<le> 32"
  shows "case opensase_policy_match osm ip4 sp dp tid of
           None \<Rightarrow>
             (\<forall>j < length (policies osm).
                \<not> policy_slot_unused (policies osm ! j)
                \<and> spec_policy_matches (policies osm ! j) ip4 sp dp tid
                \<longrightarrow> pol_priority (policies osm ! j) = - 1)
         | Some i \<Rightarrow>
             i < length (policies osm)
             \<and> \<not> policy_slot_unused (policies osm ! i)
             \<and> spec_policy_matches (policies osm ! i) ip4 sp dp tid
             \<and> pol_priority (policies osm ! i) \<noteq> - 1
             \<and> (\<forall>j < length (policies osm).
                  \<not> policy_slot_unused (policies osm ! j)
                  \<and> spec_policy_matches (policies osm ! j) ip4 sp dp tid
                  \<longrightarrow> pol_priority (policies osm ! i) \<le> pol_priority (policies osm ! j))
             \<and> (\<forall>j < i.
                  \<not> policy_slot_unused (policies osm ! j)
                  \<and> spec_policy_matches (policies osm ! j) ip4 sp dp tid
                  \<longrightarrow> pol_priority (policies osm ! i) < pol_priority (policies osm ! j))"
proof -
  let ?ps = "policies osm"
  let ?code = "\<lambda>x. \<not> policy_slot_unused x \<and> policy_predicates x ip4 sp dp tid"
  let ?spec = "\<lambda>x. \<not> policy_slot_unused x \<and> spec_policy_matches x ip4 sp dp tid"
  have eq: "?code (?ps ! j) \<longleftrightarrow> ?spec (?ps ! j)" if j: "j < length ?ps" for j
  proof (cases "policy_slot_unused (?ps ! j)")
    case True
    then show ?thesis by simp
  next
    case False
    from j have "?ps ! j \<in> set ?ps" by simp
    with lens False have "pol_src_prefix_len (?ps ! j) \<le> 32" "pol_dst_prefix_len (?ps ! j) \<le> 32"
      by blast+
    then show ?thesis by (simp add: policy_predicates_spec)
  qed
  note scan = policy_match_scan [of osm ip4 sp dp tid]
  show ?thesis
  proof (cases "opensase_policy_match osm ip4 sp dp tid")
    case None
    with scan have "\<forall>j < length ?ps. ?code (?ps ! j) \<longrightarrow> pol_priority (?ps ! j) = - 1"
      by simp
    with eq have "\<forall>j < length ?ps. ?spec (?ps ! j) \<longrightarrow> pol_priority (?ps ! j) = - 1"
      by blast
    with None show ?thesis by simp
  next
    case (Some i)
    with scan have i: "i < length ?ps" and c: "?code (?ps ! i)"
      and np: "pol_priority (?ps ! i) \<noteq> - 1"
      and a: "\<forall>j < length ?ps. ?code (?ps ! j)
                \<longrightarrow> pol_priority (?ps ! i) \<le> pol_priority (?ps ! j)"
      and b: "\<forall>j < i. ?code (?ps ! j) \<longrightarrow> pol_priority (?ps ! i) < pol_priority (?ps ! j)"
      by simp_all
    from c eq [OF i] have c': "?spec (?ps ! i)" by blast
    from a eq have a': "\<forall>j < length ?ps. ?spec (?ps ! j)
                \<longrightarrow> pol_priority (?ps ! i) \<le> pol_priority (?ps ! j)"
      by blast
    have b': "\<forall>j < i. ?spec (?ps ! j) \<longrightarrow> pol_priority (?ps ! i) < pol_priority (?ps ! j)"
    proof (intro allI impI)
      fix j assume j: "j < i" and s: "?spec (?ps ! j)"
      from j i have "j < length ?ps" by simp
      from eq [OF this] s have "?code (?ps ! j)" by blast
      with b j show "pol_priority (?ps ! i) < pol_priority (?ps ! j)" by blast
    qed
    from i c' np a' b' Some show ?thesis by simp
  qed
qed

text \<open>The mask of a /16, as the matcher applies it to an address in memory.\<close>

lemma ex_prefix_mask_16: "clib_host_to_net_u32 (prefix_mask 16) = 0xFFFF"
proof -
  have "prefix_mask 16 = 0xFFFF0000"
    by (simp add: prefix_mask_def push_bit_eq_mult del: push_bit_minus_one_eq_not_mask)
  then show ?thesis
    by (simp add: clib_host_to_net_u32_def clib_byte_swap_u32_def)
qed

lemmas ex_policy_eval4 =
  opensase_policy_match_def policy_slot_unused_def policy_predicates_def
  spec_policy_matches_def ip4_in_prefix_def prefix_covers_def ex_prefix_mask_16
  clib_net_to_host_u32_def clib_byte_swap_u32_def ip4_addr_def
  ex_tie_main_def ex_deny_zero_main_def ex_deny_zero_def policy_zero_def
  ex_main_def ex_policy_def ex_hdr_def
  OPENSASE_ACTION_ALLOW_def OPENSASE_ACTION_DENY_def
  OPENSASE_ACTION_LOG_def OPENSASE_QOS_DEFAULT_def

theorem policy_match_first_best_witness:
  "list_all (\<lambda>p. policy_slot_unused p
                \<or> pol_src_prefix_len p \<le> 32 \<and> pol_dst_prefix_len p \<le> 32)
     (policies ex_tie_main)
   \<and> opensase_policy_match ex_tie_main ex_hdr 33000 443 7 = Some 2
   \<and> pol_src_prefix_len (policies ex_tie_main ! 2) = 16
   \<and> spec_policy_matches (policies ex_tie_main ! 2) ex_hdr 33000 443 7
   \<and> pol_priority (policies ex_tie_main ! 2) = pol_priority (policies ex_tie_main ! 3)
   \<and> pol_priority (policies ex_tie_main ! 2) < pol_priority (policies ex_tie_main ! 1)
   \<and> pol_priority (policies ex_tie_main ! 4) < pol_priority (policies ex_tie_main ! 2)
   \<and> \<not> spec_policy_matches (policies ex_tie_main ! 4) ex_hdr 33000 443 7"
  using policy_match_first_best [of ex_tie_main ex_hdr 33000 443 7]
  by (simp add: ex_policy_eval4)

text \<open>
  The claim as stated fails for a policy with policy id 0 and priority 0: every
  predicate of \<open>ex_deny_zero\<close> matches the packet of tenant 7 and it is the only policy,
  yet the matcher returns none, so the deny is not applied.
\<close>

theorem policy_id_zero_priority_zero_skipped:
  "spec_policy_matches ex_deny_zero ex_hdr 33000 443 7
   \<and> policies ex_deny_zero_main = [ex_deny_zero]
   \<and> pol_action ex_deny_zero = OPENSASE_ACTION_DENY
   \<and> opensase_policy_match ex_deny_zero_main ex_hdr 33000 443 7 = None"
  by (simp add: ex_policy_eval4)

section \<open>The tenant classifier\<close>

lemma tenant_bucket_scan_find:
  "tenant_bucket_scan src_ip es =
     (case find (\<lambda>e. tenant_entry_hit e src_ip) es of
        Some e \<Rightarrow> (te_tenant_id e, te_vrf_id e)
      | None \<Rightarrow> (0, 0))"
  by (induction es) simp_all

lemma prefix_covers_self: "prefix_covers a len a"
  by (simp add: prefix_covers_def)

lemma ip4_in_prefix_self: "ip4_in_prefix a len a"
  by (simp add: ip4_in_prefix_def)

text \<open>
  For valid entries with a prefix length from 1 to 32, the test of the lookup is the
  specification's "the prefix covers the address".
\<close>

lemma tenant_entry_hit_spec:
  assumes "te_valid e \<noteq> 0 \<longrightarrow> 0 < te_prefix_len e \<and> te_prefix_len e \<le> 32"
  shows "tenant_entry_hit e src_ip
     \<longleftrightarrow> te_valid e \<noteq> 0 \<and> ip4_in_prefix (te_src_prefix e) (te_prefix_len e) src_ip"
proof (cases "te_valid e = 0")
  case True
  then show ?thesis by (simp add: tenant_entry_hit_def)
next
  case False
  with assms have "0 < te_prefix_len e" "te_prefix_len e \<le> 32" by simp_all
  from prefix_covers_spec [OF this] show ?thesis by (simp add: tenant_entry_hit_def)
qed

text \<open>
  Whatever the hash function: after the two installs of \<open>ex_tenant_table\<close> the source
  address 10.1.0.5 is classified by the /8 entry, the first of its bucket.
\<close>

lemma tenant_first_entry_any_hash:
  "tenant_lookup_fast xxh (ex_tenant_table xxh) (ip4_addr 10 1 0 5) = (1, 11)"
  by (simp add: ex_tenant_table_def opensase_tenant_add_fn_def tenant_hash_init_def
      tenant_entry_zero_def tenant_lookup_fast_def tenant_entry_hit_def prefix_covers_self)

text \<open>
  Whatever the hash function: a source address that the hash sends to another bucket
  than the address of the one installed prefix is given the default tenant, whether
  the prefix covers it or not.
\<close>

lemma tenant_other_bucket_missed:
  assumes "tenant_bucket_of xxh src_ip \<noteq> tenant_bucket_of xxh prefix"
  shows "tenant_lookup_fast xxh
           (the (opensase_tenant_add_fn xxh tenant_hash_init prefix len tenant_id vrf_id)) src_ip
         = (0, 0)"
  using assms
  by (simp add: opensase_tenant_add_fn_def tenant_hash_init_def tenant_entry_zero_def
      tenant_lookup_fast_def tenant_entry_hit_def)

text \<open>
  Claim C7, as amended.  The tenant classifier hashes the packet's whole source address
  to one bucket of four entries and takes the first valid entry of that bucket whose
  prefix covers the source address, whatever the lengths of the entries after it and
  whatever other buckets hold; if that bucket holds no such entry, tenant 0 and VRF 0
  result.  This is for buckets whose valid entries have a prefix length from 1 to 32.
  Of the pair, only \<open>tenant_id\<close> is stored in the packet metadata, whose other fields
  stay as they were; every packet goes on to the session tracker.
\<close>

theorem tenant_lookup_first_hit:
  assumes "\<forall>e \<in> set (take 4 (tenant_hash (tenant_bucket_of xxh src_ip))).
             te_valid e \<noteq> 0 \<longrightarrow> 0 < te_prefix_len e \<and> te_prefix_len e \<le> 32"
  shows "tenant_lookup_fast xxh tenant_hash src_ip =
     (case find (\<lambda>e. te_valid e \<noteq> 0
                       \<and> ip4_in_prefix (te_src_prefix e) (te_prefix_len e) src_ip)
             (take 4 (tenant_hash (tenant_bucket_of xxh src_ip))) of
        Some e \<Rightarrow> (te_tenant_id e, te_vrf_id e)
      | None \<Rightarrow> (0, 0))
   \<and> opensase_tenant_node xxh tenant_hash bufs =
       map (\<lambda>b. (b\<lparr>b_opaque2 := (b_opaque2 b)
                      \<lparr>op_tenant_id :=
                         fst (tenant_lookup_fast xxh tenant_hash (src_address (b_ip4 b)))\<rparr>\<rparr>,
                  OPENSASE_TENANT_NEXT_SECURITY)) bufs"
proof -
  let ?es = "take 4 (tenant_hash (tenant_bucket_of xxh src_ip))"
  have "find (\<lambda>e. tenant_entry_hit e src_ip) ?es
      = find (\<lambda>e. te_valid e \<noteq> 0
                   \<and> ip4_in_prefix (te_src_prefix e) (te_prefix_len e) src_ip) ?es"
  proof (rule find_cong [OF refl])
    fix e assume "e \<in> set ?es"
    with assms have "te_valid e \<noteq> 0 \<longrightarrow> 0 < te_prefix_len e \<and> te_prefix_len e \<le> 32"
      by blast
    then show "tenant_entry_hit e src_ip
        \<longleftrightarrow> te_valid e \<noteq> 0 \<and> ip4_in_prefix (te_src_prefix e) (te_prefix_len e) src_ip"
      by (rule tenant_entry_hit_spec)
  qed
  then show ?thesis
    by (simp add: tenant_lookup_fast_def tenant_bucket_scan_find opensase_tenant_node_def
        tenant_classify_def split_def)
qed

theorem tenant_lookup_first_hit_witness:
  "list_all (\<lambda>e. te_valid e = 0 \<or> 0 < te_prefix_len e \<and> te_prefix_len e \<le> 32)
     (take 4 (ex_tenant_table xxh_example (tenant_bucket_of xxh_example (ip4_addr 10 1 0 5))))
   \<and> tenant_lookup_fast xxh_example (ex_tenant_table xxh_example) (ip4_addr 10 1 0 5) = (1, 11)
   \<and> map (op_tenant_id \<circ> b_opaque2 \<circ> fst)
        (opensase_tenant_node xxh_example (ex_tenant_table xxh_example) [ex_buf]) = [1]"
  using tenant_lookup_first_hit [of "ex_tenant_table xxh_example" xxh_example "ip4_addr 10 1 0 5"
          "[ex_buf]"]
  by (simp add: ex_tenant_table_def opensase_tenant_add_fn_def tenant_hash_init_def
      tenant_entry_zero_def ip4_in_prefix_self ex_buf_def ex_hdr_def)

text \<open>
  The claim as stated fails when a shorter prefix stands before a longer one in the
  bucket: with 10.1.0.5/8 (tenant 1, VRF 11) installed before 10.1.0.5/32 (tenant 2,
  VRF 22), both of which cover the source address 10.1.0.5, the lookup returns tenant 1,
  not the longest match; and the packet metadata receives the tenant id only.
\<close>

theorem tenant_first_entry_beats_longer_prefix:
  "take 2 (ex_tenant_table xxh_example (tenant_bucket_of xxh_example (ip4_addr 10 1 0 5))) =
     [\<lparr>te_src_prefix = ip4_addr 10 1 0 5, te_prefix_len = 8, te_tenant_id = 1, te_vrf_id = 11,
       te_valid = 1\<rparr>,
      \<lparr>te_src_prefix = ip4_addr 10 1 0 5, te_prefix_len = 32, te_tenant_id = 2, te_vrf_id = 22,
       te_valid = 1\<rparr>]
   \<and> ip4_in_prefix (ip4_addr 10 1 0 5) 8 (src_address (b_ip4 ex_buf))
   \<and> ip4_in_prefix (ip4_addr 10 1 0 5) 32 (src_address (b_ip4 ex_buf))
   \<and> tenant_lookup_fast xxh_example (ex_tenant_table xxh_example) (src_address (b_ip4 ex_buf))
       = (1, 11)
   \<and> map (b_opaque2 \<circ> fst) (opensase_tenant_node xxh_example (ex_tenant_table xxh_example) [ex_buf])
       = [ex_opaque\<lparr>op_tenant_id := 1\<rparr>]"
  by (simp add: ex_tenant_table_def opensase_tenant_add_fn_def tenant_hash_init_def
      tenant_entry_zero_def tenant_lookup_fast_def tenant_entry_hit_def prefix_covers_self
      ip4_in_prefix_self opensase_tenant_node_def tenant_classify_def ex_buf_def ex_hdr_def)

section \<open>NAT port allocation\<close>

lemma nat_create_mapping_fields:
  "fst (nat_create_mapping xxh w tenant_id ia ip dst dp proto now) = length (mappings w)"
  "length (mappings (snd (nat_create_mapping xxh w tenant_id ia ip dst dp proto now)))
     = Suc (length (mappings w))"
  "take (length (mappings w))
     (mappings (snd (nat_create_mapping xxh w tenant_id ia ip dst dp proto now))) = mappings w"
  "m_external_port
     (mappings (snd (nat_create_mapping xxh w tenant_id ia ip dst dp proto now))
        ! length (mappings w))
     = next_port (tenant_pools w (nat_pool_index w tenant_id))"
  "m_external_addr
     (mappings (snd (nat_create_mapping xxh w tenant_id ia ip dst dp proto now))
        ! length (mappings w))
     = pool_external_addr (tenant_pools w (nat_pool_index w tenant_id))"
  "next_port (tenant_pools (snd (nat_create_mapping xxh w tenant_id ia ip dst dp proto now))
                (nat_pool_index w tenant_id)) =
     (if next_port (tenant_pools w (nat_pool_index w tenant_id)) + 1
           > port_end (tenant_pools w (nat_pool_index w tenant_id))
      then port_start (tenant_pools w (nat_pool_index w tenant_id))
      else next_port (tenant_pools w (nat_pool_index w tenant_id)) + 1)"
  by (simp_all add: nat_create_mapping_def Let_def)

text \<open>The node has a drop branch for a \<open>NULL\<close> mapping, and no packet ever takes it.\<close>

lemma nat_lookup_or_create_Some: "fst (nat_lookup_or_create xxh now w b) \<noteq> None"
  by (simp add: nat_lookup_or_create_def Let_def split_def split: option.splits)

lemma nat_out_encrypt: "m0 \<noteq> None \<Longrightarrow> snd (nat_out w b m0) = OPENSASE_NAT_NEXT_ENCRYPT"
  by (cases m0) (simp_all add: nat_out_def)

lemma nat_node_never_drops:
  "list_all (\<lambda>r. snd r = OPENSASE_NAT_NEXT_ENCRYPT) (fst (opensase_nat_node xxh now w bufs))"
proof (induction xxh now w bufs rule: opensase_nat_node.induct)
  case (1 xxh now w b0 b1 b2 b3 bs)
  note ih = "1.IH" [OF refl prod.collapse refl prod.collapse refl prod.collapse
                      refl prod.collapse]
  show ?case
    using ih by (simp add: split_def Let_def nat_out_encrypt nat_lookup_or_create_Some)
qed (simp_all add: split_def Let_def nat_out_encrypt nat_lookup_or_create_Some)

section \<open>The NAT node, frame by frame\<close>

lemma nat_step_refl: "nat_step w w"
  by (simp add: nat_step_def)

lemma nat_step_trans [trans]:
  assumes "nat_step w w'" and "nat_step w' w''"
  shows "nat_step w w''"
proof -
  from assms have l: "length (mappings w) \<le> length (mappings w')"
    "length (mappings w') \<le> length (mappings w'')"
    and t: "take (length (mappings w)) (mappings w') = mappings w"
    "take (length (mappings w')) (mappings w'') = mappings w'"
    by (simp_all add: nat_step_def)
  have "take (length (mappings w)) (mappings w'')
      = take (length (mappings w)) (take (length (mappings w')) (mappings w''))"
    using l by (simp add: min_def)
  also have "\<dots> = mappings w" by (simp only: t)
  finally have "take (length (mappings w)) (mappings w'') = mappings w" .
  moreover have "mapping_hash w'' k = Some i" if "mapping_hash w k = Some i" for k i
    using assms that by (simp add: nat_step_def)
  ultimately show ?thesis
    using l by (simp add: nat_step_def)
qed

lemma nat_step_nth:
  assumes "nat_step w w'" and "i < length (mappings w)"
  shows "mappings w' ! i = mappings w ! i"
proof -
  from assms(1) have "take (length (mappings w)) (mappings w') = mappings w"
    by (simp add: nat_step_def)
  then have "mappings w ! i = take (length (mappings w)) (mappings w') ! i" by simp
  also from assms(2) have "\<dots> = mappings w' ! i" by simp
  finally show ?thesis by simp
qed

text \<open>
  One lookup-or-create: the mapping it returns is the one the hash then holds for the
  buffer's key; nothing that was there is moved or removed.
\<close>

lemma nat_lookup_or_create_hash:
  "fst (nat_lookup_or_create xxh now w b)
     = mapping_hash (snd (nat_lookup_or_create xxh now w b)) (nat_buffer_key xxh b)"
  by (simp add: nat_lookup_or_create_def nat_lookup_def nat_buffer_key_def
      nat_create_mapping_def Let_def split_def split: option.splits)

lemma nat_lookup_or_create_step:
  "nat_step w (snd (nat_lookup_or_create xxh now w b))"
  by (auto simp add: nat_lookup_or_create_def nat_lookup_def nat_create_mapping_def
      nat_step_def Let_def split_def split: option.splits)

lemma nat_lookup_or_create_wf:
  assumes "nat_wf w"
  shows "nat_wf (snd (nat_lookup_or_create xxh now w b))"
  using assms
  by (auto simp add: nat_lookup_or_create_def nat_lookup_def nat_create_mapping_def
      nat_wf_def Let_def split_def less_Suc_eq split: option.splits)

lemma nat_lookup_or_create_hit:
  assumes "mapping_hash w (nat_buffer_key xxh b) = Some i"
  shows "nat_lookup_or_create xxh now w b = (Some i, w)"
  using assms
  by (simp add: nat_lookup_or_create_def nat_lookup_def nat_buffer_key_def Let_def)

text \<open>
  A mapping returned by a lookup-or-create is translated with, at any later point of
  the frame, as the mapping the hash holds for the buffer's key at the end of the frame.
\<close>

lemma nat_out_result:
  assumes wf: "nat_wf wx"
    and m: "m = fst (nat_lookup_or_create xxh now w b)"
    and wx: "wx = snd (nat_lookup_or_create xxh now w b)"
    and xy: "nat_step wx wy" and yz: "nat_step wy wz"
  shows "nat_out wy b m = nat_result xxh wz b"
proof -
  from m have "m \<noteq> None" by (simp add: nat_lookup_or_create_Some)
  then obtain i where i: "m = Some i" by auto
  with m wx have h: "mapping_hash wx (nat_buffer_key xxh b) = Some i"
    by (simp add: nat_lookup_or_create_hash)
  with wf have bound: "i < length (mappings wx)" unfolding nat_wf_def by blast
  from nat_step_trans [OF xy yz] have xz: "nat_step wx wz" .
  from xz h have hz: "mapping_hash wz (nat_buffer_key xxh b) = Some i"
    by (simp add: nat_step_def)
  have "mappings wy ! i = mappings wx ! i" by (rule nat_step_nth [OF xy bound])
  moreover have "mappings wz ! i = mappings wx ! i" by (rule nat_step_nth [OF xz bound])
  ultimately show ?thesis
    by (simp add: i nat_out_def nat_result_def hz)
qed

lemma nat_node_step_wf:
  "nat_step w (snd (opensase_nat_node xxh now w bufs))
   \<and> (nat_wf w \<longrightarrow> nat_wf (snd (opensase_nat_node xxh now w bufs)))"
proof (induction xxh now w bufs
    rule: opensase_nat_node.induct [case_names quad one two three nil])
  case (quad xxh now w b0 b1 b2 b3 bs)
  define wa where "wa = snd (nat_lookup_or_create xxh now w b0)"
  define wb where "wb = snd (nat_lookup_or_create xxh now wa b1)"
  define wc where "wc = snd (nat_lookup_or_create xxh now wb b2)"
  define wd where "wd = snd (nat_lookup_or_create xxh now wc b3)"
  have ih: "nat_step wd (snd (opensase_nat_node xxh now wd bs))
      \<and> (nat_wf wd \<longrightarrow> nat_wf (snd (opensase_nat_node xxh now wd bs)))"
    unfolding wd_def wc_def wb_def wa_def
    by (rule quad.IH [OF refl prod.collapse refl prod.collapse refl prod.collapse
                        refl prod.collapse])
  have e: "snd (opensase_nat_node xxh now w (b0 # b1 # b2 # b3 # bs))
      = snd (opensase_nat_node xxh now wd bs)"
    by (simp add: split_def Let_def wd_def wc_def wb_def wa_def)
  have "nat_step w wa" unfolding wa_def by (rule nat_lookup_or_create_step)
  also have "nat_step wa wb" unfolding wb_def by (rule nat_lookup_or_create_step)
  also have "nat_step wb wc" unfolding wc_def by (rule nat_lookup_or_create_step)
  also have "nat_step wc wd" unfolding wd_def by (rule nat_lookup_or_create_step)
  also from ih have "nat_step wd (snd (opensase_nat_node xxh now wd bs))" by simp
  finally have s: "nat_step w (snd (opensase_nat_node xxh now wd bs))" .
  have "nat_wf (snd (opensase_nat_node xxh now wd bs))" if "nat_wf w"
  proof -
    from that have "nat_wf wa" unfolding wa_def by (rule nat_lookup_or_create_wf)
    then have "nat_wf wb" unfolding wb_def by (rule nat_lookup_or_create_wf)
    then have "nat_wf wc" unfolding wc_def by (rule nat_lookup_or_create_wf)
    then have "nat_wf wd" unfolding wd_def by (rule nat_lookup_or_create_wf)
    with ih show ?thesis by simp
  qed
  with s show ?case unfolding e by simp
next
  case (one xxh now w b0)
  show ?case
    by (simp add: split_def Let_def nat_lookup_or_create_step nat_lookup_or_create_wf)
next
  case (two xxh now w b0 v)
  note ih = two.IH [OF refl prod.collapse]
  from nat_step_trans [OF nat_lookup_or_create_step] ih show ?case
    by (simp add: split_def Let_def nat_lookup_or_create_wf)
next
  case (three xxh now w b0 v vb)
  note ih = three.IH [OF refl prod.collapse]
  from nat_step_trans [OF nat_lookup_or_create_step] ih show ?case
    by (simp add: split_def Let_def nat_lookup_or_create_wf)
next
  case (nil xxh now w)
  show ?case by (simp add: nat_step_refl)
qed

text \<open>
  Every buffer of a frame is translated with the mapping the hash holds for its key
  when the frame is done.
\<close>

lemma nat_node_outputs:
  assumes "nat_wf w"
  shows "fst (opensase_nat_node xxh now w bufs)
     = map (nat_result xxh (snd (opensase_nat_node xxh now w bufs))) bufs"
  using assms
proof (induction xxh now w bufs
    rule: opensase_nat_node.induct [case_names quad one two three nil])
  case (quad xxh now w b0 b1 b2 b3 bs)
  define m0 where "m0 = fst (nat_lookup_or_create xxh now w b0)"
  define wa where "wa = snd (nat_lookup_or_create xxh now w b0)"
  define m1 where "m1 = fst (nat_lookup_or_create xxh now wa b1)"
  define wb where "wb = snd (nat_lookup_or_create xxh now wa b1)"
  define m2 where "m2 = fst (nat_lookup_or_create xxh now wb b2)"
  define wc where "wc = snd (nat_lookup_or_create xxh now wb b2)"
  define m3 where "m3 = fst (nat_lookup_or_create xxh now wc b3)"
  define wd where "wd = snd (nat_lookup_or_create xxh now wc b3)"
  define w' where "w' = snd (opensase_nat_node xxh now wd bs)"
  have wfa: "nat_wf wa" unfolding wa_def by (rule nat_lookup_or_create_wf [OF quad.prems])
  have wfb: "nat_wf wb" unfolding wb_def by (rule nat_lookup_or_create_wf [OF wfa])
  have wfc: "nat_wf wc" unfolding wc_def by (rule nat_lookup_or_create_wf [OF wfb])
  have wfd: "nat_wf wd" unfolding wd_def by (rule nat_lookup_or_create_wf [OF wfc])
  have ab: "nat_step wa wb" unfolding wb_def by (rule nat_lookup_or_create_step)
  have bc: "nat_step wb wc" unfolding wc_def by (rule nat_lookup_or_create_step)
  have cd: "nat_step wc wd" unfolding wd_def by (rule nat_lookup_or_create_step)
  have dz: "nat_step wd w'" unfolding w'_def using nat_node_step_wf [of wd xxh now bs] by simp
  have bd: "nat_step wb wd" by (rule nat_step_trans [OF bc cd])
  have ad: "nat_step wa wd" by (rule nat_step_trans [OF ab bd])
  have o0: "nat_out wd b0 m0 = nat_result xxh w' b0"
    by (rule nat_out_result [OF wfa m0_def wa_def ad dz])
  have o1: "nat_out wd b1 m1 = nat_result xxh w' b1"
    by (rule nat_out_result [OF wfb m1_def wb_def bd dz])
  have o2: "nat_out wd b2 m2 = nat_result xxh w' b2"
    by (rule nat_out_result [OF wfc m2_def wc_def cd dz])
  have o3: "nat_out wd b3 m3 = nat_result xxh w' b3"
    by (rule nat_out_result [OF wfd m3_def wd_def nat_step_refl dz])
  have ih: "fst (opensase_nat_node xxh now wd bs) = map (nat_result xxh w') bs"
    unfolding w'_def wd_def wc_def wb_def wa_def
    by (rule quad.IH [OF refl prod.collapse refl prod.collapse refl prod.collapse
                        refl prod.collapse])
      (use wfd in \<open>simp add: wd_def wc_def wb_def wa_def\<close>)
  have e: "opensase_nat_node xxh now w (b0 # b1 # b2 # b3 # bs)
      = (nat_out wd b0 m0 # nat_out wd b1 m1 # nat_out wd b2 m2 # nat_out wd b3 m3
           # fst (opensase_nat_node xxh now wd bs), w')"
    by (simp add: split_def Let_def w'_def wd_def wc_def wb_def wa_def
        m0_def m1_def m2_def m3_def)
  show ?case
    unfolding e by (simp add: o0 o1 o2 o3 ih)
next
  case (one xxh now w b0)
  have "nat_out (snd (nat_lookup_or_create xxh now w b0)) b0
          (fst (nat_lookup_or_create xxh now w b0))
      = nat_result xxh (snd (nat_lookup_or_create xxh now w b0)) b0"
    by (rule nat_out_result [OF nat_lookup_or_create_wf [OF one.prems] refl refl
          nat_step_refl nat_step_refl])
  then show ?case by (simp add: split_def Let_def)
next
  case (two xxh now w b0 v)
  define wa where "wa = snd (nat_lookup_or_create xxh now w b0)"
  define w' where "w' = snd (opensase_nat_node xxh now wa [v])"
  have wfa: "nat_wf wa" unfolding wa_def by (rule nat_lookup_or_create_wf [OF two.prems])
  have az: "nat_step wa w'" unfolding w'_def using nat_node_step_wf [of wa xxh now "[v]"] by simp
  have o: "nat_out wa b0 (fst (nat_lookup_or_create xxh now w b0)) = nat_result xxh w' b0"
    by (rule nat_out_result [OF wfa refl wa_def nat_step_refl az])
  have ih: "fst (opensase_nat_node xxh now wa [v]) = map (nat_result xxh w') [v]"
    unfolding w'_def wa_def
    by (rule two.IH [OF refl prod.collapse]) (use wfa in \<open>simp add: wa_def\<close>)
  have e: "opensase_nat_node xxh now w [b0, v]
      = (nat_out wa b0 (fst (nat_lookup_or_create xxh now w b0))
           # fst (opensase_nat_node xxh now wa [v]), w')"
    by (simp add: split_def Let_def w'_def wa_def)
  show ?case unfolding e by (simp only: o ih fst_conv snd_conv list.map)
next
  case (three xxh now w b0 v vb)
  define wa where "wa = snd (nat_lookup_or_create xxh now w b0)"
  define w' where "w' = snd (opensase_nat_node xxh now wa [v, vb])"
  have wfa: "nat_wf wa" unfolding wa_def by (rule nat_lookup_or_create_wf [OF three.prems])
  have az: "nat_step wa w'"
    unfolding w'_def using nat_node_step_wf [of wa xxh now "[v, vb]"] by simp
  have o: "nat_out wa b0 (fst (nat_lookup_or_create xxh now w b0)) = nat_result xxh w' b0"
    by (rule nat_out_result [OF wfa refl wa_def nat_step_refl az])
  have ih: "fst (opensase_nat_node xxh now wa [v, vb]) = map (nat_result xxh w') [v, vb]"
    unfolding w'_def wa_def
    by (rule three.IH [OF refl prod.collapse]) (use wfa in \<open>simp add: wa_def\<close>)
  have e: "opensase_nat_node xxh now w [b0, v, vb]
      = (nat_out wa b0 (fst (nat_lookup_or_create xxh now w b0))
           # fst (opensase_nat_node xxh now wa [v, vb]), w')"
    by (simp add: split_def Let_def w'_def wa_def)
  show ?case unfolding e by (simp only: o ih fst_conv snd_conv list.map)
next
  case (nil xxh now w)
  show ?case by simp
qed

text \<open>The worker after a frame: the lookups and creations of its buffers, in order.\<close>

lemma nat_node_fold:
  "snd (opensase_nat_node xxh now w bufs)
     = foldl (\<lambda>w b. snd (nat_lookup_or_create xxh now w b)) w bufs"
proof (induction xxh now w bufs
    rule: opensase_nat_node.induct [case_names quad one two three nil])
  case (quad xxh now w b0 b1 b2 b3 bs)
  from quad.IH [OF refl prod.collapse refl prod.collapse refl prod.collapse refl prod.collapse]
  show ?case by (simp add: split_def Let_def)
next
  case (two xxh now w b0 v)
  from two.IH [OF refl prod.collapse] show ?case by (simp add: split_def Let_def)
next
  case (three xxh now w b0 v vb)
  from three.IH [OF refl prod.collapse] show ?case by (simp add: split_def Let_def)
qed (simp_all add: split_def Let_def)

text \<open>
  Claim C1, as amended.  For every packet that misses the NAT mapping table, the NAT44
  stage appends a mapping whose external port is the pool's \<open>next_port\<close>, and advances
  \<open>next_port\<close> by one (16-bit), setting it back to the pool's \<open>port_start\<close> when it has
  passed \<open>port_end\<close>.  The port is handed
  out without looking at the mappings that already hold it, expired or not, and the
  allocation has no failure: the packet always receives its mapping and goes on to the
  encapsulator.  A frame leaves the worker as the lookups and creations of its buffers
  leave it, taken in order, and no buffer of any frame is dropped.
\<close>

theorem nat_port_allocation:
  assumes "nat_lookup xxh w (src_address (b_ip4 b)) (dst_address (b_ip4 b))
             (clib_net_to_host_u16 (b_ports0 b)) (clib_net_to_host_u16 (b_ports1 b))
             (protocol (b_ip4 b)) = None"
  shows "fst (nat_lookup_or_create xxh now w b) = Some (length (mappings w))
   \<and> length (mappings (snd (nat_lookup_or_create xxh now w b))) = Suc (length (mappings w))
   \<and> take (length (mappings w)) (mappings (snd (nat_lookup_or_create xxh now w b))) = mappings w
   \<and> m_external_port (mappings (snd (nat_lookup_or_create xxh now w b)) ! length (mappings w))
       = next_port (tenant_pools w (nat_pool_index w (op_tenant_id (b_opaque2 b))))
   \<and> next_port (tenant_pools (snd (nat_lookup_or_create xxh now w b))
                  (nat_pool_index w (op_tenant_id (b_opaque2 b))))
       = (if next_port (tenant_pools w (nat_pool_index w (op_tenant_id (b_opaque2 b)))) + 1
               > port_end (tenant_pools w (nat_pool_index w (op_tenant_id (b_opaque2 b))))
          then port_start (tenant_pools w (nat_pool_index w (op_tenant_id (b_opaque2 b))))
          else next_port (tenant_pools w (nat_pool_index w (op_tenant_id (b_opaque2 b)))) + 1)
   \<and> snd (nat_out (snd (nat_lookup_or_create xxh now w b)) b
             (fst (nat_lookup_or_create xxh now w b))) = OPENSASE_NAT_NEXT_ENCRYPT
   \<and> snd (opensase_nat_node xxh now w0 bufs)
       = foldl (\<lambda>w b. snd (nat_lookup_or_create xxh now w b)) w0 bufs
   \<and> list_all (\<lambda>r. snd r = OPENSASE_NAT_NEXT_ENCRYPT) (fst (opensase_nat_node xxh now w0 bufs))"
proof -
  have "fst (nat_lookup_or_create xxh now w b) = Some (length (mappings w))
   \<and> length (mappings (snd (nat_lookup_or_create xxh now w b))) = Suc (length (mappings w))
   \<and> take (length (mappings w)) (mappings (snd (nat_lookup_or_create xxh now w b))) = mappings w
   \<and> m_external_port (mappings (snd (nat_lookup_or_create xxh now w b)) ! length (mappings w))
       = next_port (tenant_pools w (nat_pool_index w (op_tenant_id (b_opaque2 b))))
   \<and> next_port (tenant_pools (snd (nat_lookup_or_create xxh now w b))
                  (nat_pool_index w (op_tenant_id (b_opaque2 b))))
       = (if next_port (tenant_pools w (nat_pool_index w (op_tenant_id (b_opaque2 b)))) + 1
               > port_end (tenant_pools w (nat_pool_index w (op_tenant_id (b_opaque2 b))))
          then port_start (tenant_pools w (nat_pool_index w (op_tenant_id (b_opaque2 b))))
          else next_port (tenant_pools w (nat_pool_index w (op_tenant_id (b_opaque2 b)))) + 1)
   \<and> snd (nat_out (snd (nat_lookup_or_create xxh now w b)) b
             (fst (nat_lookup_or_create xxh now w b))) = OPENSASE_NAT_NEXT_ENCRYPT"
    using assms
    by (simp add: nat_lookup_or_create_def Let_def split_def nat_create_mapping_fields
        nat_out_def)
  with nat_node_fold [of xxh now w0 bufs] nat_node_never_drops [of xxh now w0 bufs]
  show ?thesis by blast
qed

lemmas ex_nat_eval =
  nat_lookup_or_create_def nat_lookup_def nat_create_mapping_def nat_hash_key_def flow_key_def
  nat_pool_index_def nat_tenant_clamp_def nat_out_def nat_translate_def
  ex_nat_worker_def ex_pool_def ex_buf_def ex_buf2_def ex_hdr_def ex_opaque_def
  xxh_example_def clib_net_to_host_u16_def clib_host_to_net_u16_def clib_byte_swap_u16_def
  ip4_addr_def OPENSASE_QOS_DEFAULT_def

theorem nat_port_allocation_witness:
  "nat_lookup xxh_example ex_nat_worker (src_address (b_ip4 ex_buf)) (dst_address (b_ip4 ex_buf))
     (clib_net_to_host_u16 (b_ports0 ex_buf)) (clib_net_to_host_u16 (b_ports1 ex_buf))
     (protocol (b_ip4 ex_buf)) = None
   \<and> fst (nat_lookup_or_create xxh_example 0 ex_nat_worker ex_buf) = Some 0
   \<and> m_external_port (mappings (snd (nat_lookup_or_create xxh_example 0 ex_nat_worker ex_buf)) ! 0)
       = 10000
   \<and> next_port (tenant_pools (snd (nat_lookup_or_create xxh_example 0 ex_nat_worker ex_buf)) 0)
       = 10000"
  using nat_port_allocation [of xxh_example ex_nat_worker ex_buf 0 ex_nat_worker "[]"]
  by (simp add: ex_nat_eval)

text \<open>
  Whatever the hash function: two mappings created one after the other from the
  one-port pool both get port 10000, the second at time 1, long before the first expires.
\<close>

lemma nat_port_reused_any_hash:
  "map m_external_port
     (mappings (snd (nat_create_mapping xxh
        (snd (nat_create_mapping xxh ex_nat_worker 7 a1 p1 d1 q1 proto1 0)) 7 a2 p2 d2 q2 proto2 1)))
     = [10000, 10000]
   \<and> map m_expire_time
     (mappings (snd (nat_create_mapping xxh
        (snd (nat_create_mapping xxh ex_nat_worker 7 a1 p1 d1 q1 proto1 0)) 7 a2 p2 d2 q2 proto2 1)))
     = [300, 301]"
  by (simp add: nat_create_mapping_def nat_pool_index_def nat_tenant_clamp_def
      ex_nat_worker_def ex_pool_def Let_def)

text \<open>
  The claim as stated fails on a pool with the single port 10000: the second of two
  flows that miss the table at time 1 is given port 10000 although the first flow's
  mapping on that port, made just before it, expires only at time 301, and it is sent to
  the encapsulator instead of failing for want of a free port.
\<close>

theorem nat_port_reused_before_expiry:
  "map snd (fst (opensase_nat_node xxh_example 1 ex_nat_worker [ex_buf, ex_buf2]))
     = [OPENSASE_NAT_NEXT_ENCRYPT, OPENSASE_NAT_NEXT_ENCRYPT]
   \<and> map m_internal_addr (mappings (snd (opensase_nat_node xxh_example 1 ex_nat_worker [ex_buf, ex_buf2])))
     = [ip4_addr 10 1 0 5, ip4_addr 10 1 0 6]
   \<and> map m_external_port (mappings (snd (opensase_nat_node xxh_example 1 ex_nat_worker [ex_buf, ex_buf2])))
     = [10000, 10000]
   \<and> map m_expire_time (mappings (snd (opensase_nat_node xxh_example 1 ex_nat_worker [ex_buf, ex_buf2])))
     = [301, 301]"
  by (simp add: ex_nat_eval Let_def)

section \<open>The session table only grows\<close>

lemma nth_list_update_if:
  "xs[i := x] ! j = (if i = j \<and> i < length xs then x else xs ! j)"
  by (cases "i < length xs") (auto simp add: nth_list_update list_update_beyond)

lemma tracker_step_refl: "tracker_step w w"
  by (auto simp add: tracker_step_def)

lemma tracker_step_trans [trans]:
  assumes "tracker_step w w'" and "tracker_step w' w''"
  shows "tracker_step w w''"
proof -
  from assms have n: "n_sessions w \<le> n_sessions w'" "n_sessions w' \<le> n_sessions w''"
    and l: "length (sessions w') = length (sessions w)" "length (sessions w'') = length (sessions w')"
    by (simp_all add: tracker_step_def)
  have h: "session_hash w'' k = Some i" if "session_hash w k = Some i" for k i
    using assms that by (simp add: tracker_step_def)
  have old: "s_state (sessions w'' ! j) = s_state (sessions w ! j)" if "j < n_sessions w" for j
  proof -
    from that n have "j < n_sessions w'" by simp
    with assms(2) have "s_state (sessions w'' ! j) = s_state (sessions w' ! j)"
      by (simp add: tracker_step_def)
    also from assms(1) that have "\<dots> = s_state (sessions w ! j)"
      by (simp add: tracker_step_def)
    finally show ?thesis .
  qed
  have new: "s_state (sessions w'' ! j) = OPENSASE_SESSION_NEW"
    if "n_sessions w \<le> j" "j < n_sessions w''" for j
  proof (cases "j < n_sessions w'")
    case True
    with assms(2) have "s_state (sessions w'' ! j) = s_state (sessions w' ! j)"
      by (simp add: tracker_step_def)
    also from assms(1) that(1) True have "\<dots> = OPENSASE_SESSION_NEW"
      by (simp add: tracker_step_def)
    finally show ?thesis .
  next
    case False
    with assms(2) that(2) show ?thesis by (simp add: tracker_step_def)
  qed
  have full: "n_sessions w'' = n_sessions w \<and> session_hash w'' = session_hash w"
    if "length (sessions w) \<le> n_sessions w"
  proof -
    from assms(1) that have a: "n_sessions w' = n_sessions w" "session_hash w' = session_hash w"
      by (simp_all add: tracker_step_def)
    with that l have "length (sessions w') \<le> n_sessions w'" by simp
    with assms(2) have "n_sessions w'' = n_sessions w'" "session_hash w'' = session_hash w'"
      by (simp_all add: tracker_step_def)
    with a show ?thesis by simp
  qed
  show ?thesis
    unfolding tracker_step_def using n l h old new full by auto
qed

lemma lookup_or_create_step:
  "tracker_step w (snd (opensase_session_lookup_or_create xxh now w ip4 sp dp))"
proof (cases "session_hash w (opensase_session_hash xxh ip4 sp dp)")
  case (Some p)
  then show ?thesis
    by (simp add: opensase_session_lookup_or_create_def Let_def tracker_step_refl)
next
  case None
  show ?thesis
  proof (cases "length (sessions w) \<le> n_sessions w")
    case True
    with None show ?thesis
      by (simp add: opensase_session_lookup_or_create_def Let_def tracker_step_refl)
  next
    case False
    then have room: "n_sessions w < length (sessions w)" by simp
    have new: "j = n_sessions w" if "n_sessions w \<le> j" "j < Suc (n_sessions w)" for j
      using that by simp
    from None False room show ?thesis
      by (auto simp add: opensase_session_lookup_or_create_def Let_def tracker_step_def
          nth_list_update_if dest!: new)
  qed
qed

lemma security_lookup_step: "tracker_step w (snd (security_lookup xxh now w b))"
  by (simp add: security_lookup_def split_def Let_def lookup_or_create_step)

lemma session_touch_state: "s_state (session_touch now len s) = s_state s"
  by (simp add: session_touch_def)

lemma security_update_step: "tracker_step w (security_update now w b s0)"
proof (cases s0)
  case None
  then show ?thesis by (simp add: security_update_def tracker_step_refl)
next
  case (Some i)
  have "s_state ((sessions w)[i := session_touch now (b_length_in_chain b) (sessions w ! i)] ! j)
          = s_state (sessions w ! j)" for j
    by (simp add: nth_list_update_if session_touch_state)
  with Some show ?thesis
    by (auto simp add: security_update_def tracker_step_def)
qed




lemma security_update_keeps:
  "session_hash (security_update now w b s0) = session_hash w"
  "n_sessions (security_update now w b s0) = n_sessions w"
  "length (sessions (security_update now w b s0)) = length (sessions w)"
  by (cases s0; simp add: security_update_def)+




section \<open>The session tracker, packet by packet\<close>

lemma security_lookup_eq:
  "security_lookup xxh now w b =
     (case session_hash w (buffer_session_hash xxh b) of
        Some p \<Rightarrow> ((Some p, of_nat p, False), w)
      | None \<Rightarrow>
          if length (sessions w) \<le> n_sessions w then ((None, - 1, False), w)
          else ((Some (n_sessions w), of_nat (n_sessions w), True),
                w\<lparr>n_sessions := n_sessions w + 1,
                  sessions := (sessions w)[n_sessions w := fresh_session now b],
                  session_hash := (session_hash w)(buffer_session_hash xxh b \<mapsto> n_sessions w),
                  sessions_created := sessions_created w + 1\<rparr>))"
  by (simp add: security_lookup_def buffer_session_hash_def fresh_session_def
      opensase_session_lookup_or_create_def split_def Let_def split: option.splits)

lemma security_lookup_wf:
  assumes "tracker_wf w"
  shows "tracker_wf (snd (security_lookup xxh now w b))"
    and "session_ref_ok (snd (security_lookup xxh now w b)) (fst (fst (security_lookup xxh now w b)))"
  using assms
  by (auto simp add: security_lookup_eq tracker_wf_def session_ref_ok_def less_Suc_eq
      split: option.splits)

lemma security_lookup_ref_ok:
  assumes "session_ref_ok w s0"
  shows "session_ref_ok (snd (security_lookup xxh now w b)) s0"
  using assms
  by (auto simp add: security_lookup_eq session_ref_ok_def split: option.splits)

lemma security_update_wf:
  "tracker_wf (security_update now w b s0) = tracker_wf w"
  "session_ref_ok (security_update now w b s0) s1 = session_ref_ok w s1"
  by (simp_all add: tracker_wf_def session_ref_ok_def security_update_keeps
      split: option.splits)

text \<open>
  The statistics update of an earlier packet and the lookup of a later one can change
  places: the lookup writes only the slot at the session count, above every session an
  earlier lookup returned.
\<close>

lemma lookup_update_commute:
  assumes "session_ref_ok w s0"
  shows "security_lookup xxh tc (security_update tu w b0 s0) b =
     (fst (security_lookup xxh tc w b),
      security_update tu (snd (security_lookup xxh tc w b)) b0 s0)"
proof (cases s0)
  case None
  then show ?thesis by (simp add: security_update_def)
next
  case (Some i)
  with assms have i: "i < n_sessions w" by (simp add: session_ref_ok_def)
  then have ne: "i \<noteq> n_sessions w" by simp
  show ?thesis
    unfolding Some
    using i ne
    by (simp add: security_lookup_eq security_update_def list_update_swap
        split: option.splits)
qed

lemma security_one_wf:
  assumes "tracker_wf w"
  shows "tracker_wf (snd (security_one xxh tc tu w b))"
  using assms by (simp add: security_one_def security_update_wf security_lookup_wf)

lemma security_seq_wf:
  "tracker_wf w \<Longrightarrow> tracker_wf (snd (security_seq xxh clk k w bufs))"
  by (induction bufs arbitrary: k w) (simp_all add: security_one_wf)

text \<open>
  From a well-formed worker, the frame loops do what processing the buffers one at a
  time does: in a group of four the four lookups come before the four updates, and
  each update reaches the same session with the same contents.
\<close>

lemma security_quad_seq:
  fixes xxh :: "u64 \<Rightarrow> u64" and ta tb tc td ua ub uc ud :: f64 and w :: opensase_worker
    and pa pb pc pd :: vlib_buffer
  assumes wf: "tracker_wf w"
  defines "r0 \<equiv> fst (security_lookup xxh ta w pa)"
    and "wa \<equiv> snd (security_lookup xxh ta w pa)"
  defines "r1 \<equiv> fst (security_lookup xxh tb wa pb)"
    and "wb \<equiv> snd (security_lookup xxh tb wa pb)"
  defines "r2 \<equiv> fst (security_lookup xxh tc wb pc)"
    and "wc \<equiv> snd (security_lookup xxh tc wb pc)"
  defines "r3 \<equiv> fst (security_lookup xxh td wc pd)"
    and "wd \<equiv> snd (security_lookup xxh td wc pd)"
  defines "wh \<equiv> security_update ud (security_update uc (security_update ub
             (security_update ua wd pa (fst r0)) pb (fst r1)) pc (fst r2)) pd (fst r3)"
  defines "sa \<equiv> security_one xxh ta ua w pa"
  defines "sb \<equiv> security_one xxh tb ub (snd sa) pb"
  defines "sc \<equiv> security_one xxh tc uc (snd sb) pc"
  defines "sd \<equiv> security_one xxh td ud (snd sc) pd"
  shows "fst sa = security_out pa r0" and "fst sb = security_out pb r1"
    and "fst sc = security_out pc r2" and "fst sd = security_out pd r3"
    and "snd sd = wh" and "tracker_wf wh"
proof -
  have wfa: "tracker_wf wa" and v0a: "session_ref_ok wa (fst r0)"
    unfolding wa_def r0_def by (rule security_lookup_wf [OF wf])+
  have wfb: "tracker_wf wb" and v1b: "session_ref_ok wb (fst r1)"
    unfolding wb_def r1_def by (rule security_lookup_wf [OF wfa])+
  have v0b: "session_ref_ok wb (fst r0)"
    unfolding wb_def by (rule security_lookup_ref_ok [OF v0a])
  have wfc: "tracker_wf wc" and v2c: "session_ref_ok wc (fst r2)"
    unfolding wc_def r2_def by (rule security_lookup_wf [OF wfb])+
  have v0c: "session_ref_ok wc (fst r0)"
    unfolding wc_def by (rule security_lookup_ref_ok [OF v0b])
  have v1c: "session_ref_ok wc (fst r1)"
    unfolding wc_def by (rule security_lookup_ref_ok [OF v1b])
  have wfd: "tracker_wf wd"
    unfolding wd_def by (rule security_lookup_wf [OF wfc])
  show "tracker_wf wh"
    unfolding wh_def by (simp add: security_update_wf wfd)
  define u0 where "u0 = (\<lambda>w. security_update ua w pa (fst r0))"
  define u1 where "u1 = (\<lambda>w. security_update ub w pb (fst r1))"
  define u2 where "u2 = (\<lambda>w. security_update uc w pc (fst r2))"
  define u3 where "u3 = (\<lambda>w. security_update ud w pd (fst r3))"
  have ok0: "session_ref_ok (u0 w') s = session_ref_ok w' s" for w' s
    unfolding u0_def by (rule security_update_wf)
  have ok1: "session_ref_ok (u1 w') s = session_ref_ok w' s" for w' s
    unfolding u1_def by (rule security_update_wf)
  have c0: "security_lookup xxh t (u0 w') b =
      (fst (security_lookup xxh t w' b), u0 (snd (security_lookup xxh t w' b)))"
    if "session_ref_ok w' (fst r0)" for w' b t
    unfolding u0_def by (rule lookup_update_commute [OF that])
  have c1: "security_lookup xxh t (u1 w') b =
      (fst (security_lookup xxh t w' b), u1 (snd (security_lookup xxh t w' b)))"
    if "session_ref_ok w' (fst r1)" for w' b t
    unfolding u1_def by (rule lookup_update_commute [OF that])
  have c2: "security_lookup xxh t (u2 w') b =
      (fst (security_lookup xxh t w' b), u2 (snd (security_lookup xxh t w' b)))"
    if "session_ref_ok w' (fst r2)" for w' b t
    unfolding u2_def by (rule lookup_update_commute [OF that])
  have s0: "sa = (security_out pa r0, u0 wa)"
    by (simp add: sa_def security_one_def r0_def wa_def u0_def)
  have l1: "security_lookup xxh tb (u0 wa) pb = (r1, u0 wb)"
    by (simp add: c0 [OF v0a] r1_def wb_def)
  have s1: "sb = (security_out pb r1, u1 (u0 wb))"
    by (simp add: sb_def s0 security_one_def l1 u1_def)
  have l2a: "security_lookup xxh tc (u0 wb) pc = (r2, u0 wc)"
    by (simp add: c0 [OF v0b] r2_def wc_def)
  have l2: "security_lookup xxh tc (u1 (u0 wb)) pc = (r2, u1 (u0 wc))"
    using v1b by (simp add: c1 ok0 l2a)
  have s2: "sc = (security_out pc r2, u2 (u1 (u0 wc)))"
    by (simp add: sc_def s1 security_one_def l2 u2_def)
  have l3a: "security_lookup xxh td (u0 wc) pd = (r3, u0 wd)"
    by (simp add: c0 [OF v0c] r3_def wd_def)
  have l3b: "security_lookup xxh td (u1 (u0 wc)) pd = (r3, u1 (u0 wd))"
    using v1c by (simp add: c1 ok0 l3a)
  have l3: "security_lookup xxh td (u2 (u1 (u0 wc))) pd = (r3, u2 (u1 (u0 wd)))"
    using v2c by (simp add: c2 ok0 ok1 l3b)
  have s3: "sd = (security_out pd r3, u3 (u2 (u1 (u0 wd))))"
    by (simp add: sd_def s2 security_one_def l3 u3_def)
  have wh: "wh = u3 (u2 (u1 (u0 wd)))"
    by (simp add: wh_def u0_def u1_def u2_def u3_def)
  show "fst sa = security_out pa r0" by (simp add: s0)
  show "fst sb = security_out pb r1" by (simp add: s1)
  show "fst sc = security_out pc r2" by (simp add: s2)
  show "fst sd = security_out pd r3" by (simp add: s3)
  show "snd sd = wh" by (simp add: s3 wh)
qed

lemma security_frame_seq:
  "tracker_wf w \<Longrightarrow> security_frame xxh clk k w bufs = security_seq xxh clk k w bufs"
proof (induction xxh clk k w bufs
    rule: security_frame.induct [case_names quad one two three nil])
  case (quad xxh clk k w b0 b1 b2 b3 bs)
  note q = security_quad_seq(1-5) [OF quad.prems]
  note q6 = security_quad_seq(6) [OF quad.prems,
      where xxh = xxh and pa = b0 and pb = b1 and pc = b2 and pd = b3
        and ta = "created_at clk k" and tb = "created_at clk (k + 1)"
        and tc = "created_at clk (k + 2)" and td = "created_at clk (k + 3)"
        and ua = "updated_at clk k" and ub = "updated_at clk (k + 1)"
        and uc = "updated_at clk (k + 2)" and ud = "updated_at clk (k + 3)"]
  have e: "k + 3 = Suc (Suc (Suc k))" "k + 4 = Suc (Suc (Suc (Suc k)))" by simp_all
  note ih = quad.IH [OF refl prod.collapse refl prod.collapse refl prod.collapse
                       refl prod.collapse refl refl refl refl q6]
  from ih show ?case
    by (simp add: split_def Let_def q e)
next
  case (one xxh clk k w b0)
  show ?case by (simp add: security_one_def split_def Let_def)
next
  case (two xxh clk k w b0 v)
  from two.prems have "tracker_wf (snd (security_one xxh (created_at clk k) (updated_at clk k) w b0))"
    by (rule security_one_wf)
  then have "tracker_wf (security_update (updated_at clk k)
                          (snd (security_lookup xxh (created_at clk k) w b0)) b0
                          (fst (fst (security_lookup xxh (created_at clk k) w b0))))"
    by (simp add: security_one_def)
  from two.IH [OF refl prod.collapse refl this] show ?case
    by (simp add: security_one_def split_def Let_def)
next
  case (three xxh clk k w b0 v vb)
  from three.prems
  have "tracker_wf (snd (security_one xxh (created_at clk k) (updated_at clk k) w b0))"
    by (rule security_one_wf)
  then have "tracker_wf (security_update (updated_at clk k)
                          (snd (security_lookup xxh (created_at clk k) w b0)) b0
                          (fst (fst (security_lookup xxh (created_at clk k) w b0))))"
    by (simp add: security_one_def)
  from three.IH [OF refl prod.collapse refl this] show ?case
    by (simp add: security_one_def split_def Let_def)
next
  case (nil xxh clk k w)
  show ?case by simp
qed

text \<open>The three things that can happen to one packet.\<close>

lemma security_one_hit:
  assumes "session_hash w (buffer_session_hash xxh b) = Some i"
  shows "security_one xxh tc tu w b =
     ((b\<lparr>b_opaque2 := (b_opaque2 b)\<lparr>op_session_idx := of_nat i\<rparr>\<rparr>, OPENSASE_SECURITY_NEXT_POLICY),
      w\<lparr>sessions := (sessions w)[i := session_touch tu (b_length_in_chain b) (sessions w ! i)]\<rparr>)"
  using assms
  by (simp add: security_one_def security_lookup_eq security_out_def security_update_def)

lemma security_one_create:
  assumes "session_hash w (buffer_session_hash xxh b) = None"
    and "n_sessions w < length (sessions w)"
  shows "security_one xxh tc tu w b =
     ((b\<lparr>b_opaque2 := (b_opaque2 b)\<lparr>op_session_idx := of_nat (n_sessions w)\<rparr>\<rparr>,
       OPENSASE_SECURITY_NEXT_POLICY),
      w\<lparr>n_sessions := n_sessions w + 1,
        sessions := (sessions w)[n_sessions w :=
                      session_touch tu (b_length_in_chain b) (fresh_session tc b)],
        session_hash := (session_hash w)(buffer_session_hash xxh b \<mapsto> n_sessions w),
        sessions_created := sessions_created w + 1\<rparr>)"
  using assms
  by (simp add: security_one_def security_lookup_eq security_out_def security_update_def)

lemma security_one_full:
  assumes "session_hash w (buffer_session_hash xxh b) = None"
    and "length (sessions w) \<le> n_sessions w"
  shows "security_one xxh tc tu w b =
     ((b\<lparr>b_opaque2 := (b_opaque2 b)\<lparr>op_session_idx := - 1\<rparr>\<rparr>, OPENSASE_SECURITY_NEXT_DROP), w)"
  using assms
  by (simp add: security_one_def security_lookup_eq security_out_def security_update_def)

lemma security_one_step: "tracker_step w (snd (security_one xxh tc tu w b))"
  unfolding security_one_def snd_conv
  by (rule tracker_step_trans [OF security_lookup_step security_update_step])

lemma security_seq_step: "tracker_step w (snd (security_seq xxh clk k w bufs))"
proof (induction bufs arbitrary: k w)
  case Nil
  show ?case by (simp add: tracker_step_refl)
next
  case (Cons b bs)
  from tracker_step_trans [OF security_one_step Cons.IH] show ?case by simp
qed

lemma touch_all_Cons:
  "touch_all clk (p # ps) s
     = touch_all clk ps (session_touch (updated_at clk (fst p)) (b_length_in_chain (snd p)) s)"
  by (simp add: touch_all_def)

lemma session_packets_Cons:
  "session_packets xxh w j k (b # bs) =
     (if session_hash w (buffer_session_hash xxh b) = Some j
      then (k, b) # session_packets xxh w j (Suc k) bs
      else session_packets xxh w j (Suc k) bs)"
proof -
  have "[k ..< Suc (k + length bs)] = k # [Suc k ..< Suc (k + length bs)]"
    by (rule upt_conv_Cons) simp
  then show ?thesis
    by (simp add: session_packets_def del: upt_Suc)
qed

text \<open>
  A frame, packet by packet, from a well-formed worker \<open>w\<close> to the worker \<open>w'\<close>.  Every
  buffer leaves with the index its key has in the session hash of \<open>w'\<close>, or is dropped
  when its key is not there.  Every session of \<open>w'\<close> is the session of \<open>w\<close> at that index,
  or for a new index the session initialised from the first buffer of the frame with
  that index, after one statistics update for each buffer of the frame with that index.
\<close>

lemma security_seq_sessions:
  assumes "tracker_wf w"
  shows "fst (security_seq xxh clk k w bufs)
           = map (security_result xxh (snd (security_seq xxh clk k w bufs))) bufs
     \<and> (\<forall>j < n_sessions (snd (security_seq xxh clk k w bufs)).
           sessions (snd (security_seq xxh clk k w bufs)) ! j =
             touch_all clk (session_packets xxh (snd (security_seq xxh clk k w bufs)) j k bufs)
               (if j < n_sessions w then sessions w ! j
                else fresh_session
                       (created_at clk (fst (hd (session_packets xxh
                          (snd (security_seq xxh clk k w bufs)) j k bufs))))
                       (snd (hd (session_packets xxh
                          (snd (security_seq xxh clk k w bufs)) j k bufs)))))"
  using assms
proof (induction bufs arbitrary: k w)
  case Nil
  then show ?case by (simp add: touch_all_def session_packets_def)
next
  case (Cons b bs)
  note wf = Cons.prems
  let ?k = "buffer_session_hash xxh b"
  let ?tc = "created_at clk k" and ?tu = "updated_at clk k"
  define w1 where "w1 = snd (security_one xxh ?tc ?tu w b)"
  define w' where "w' = snd (security_seq xxh clk (Suc k) w1 bs)"
  have w'_eq: "snd (security_seq xxh clk k w (b # bs)) = w'"
    by (simp add: w'_def w1_def)
  have out_eq: "fst (security_seq xxh clk k w (b # bs))
      = fst (security_one xxh ?tc ?tu w b) # fst (security_seq xxh clk (Suc k) w1 bs)"
    by (simp add: w1_def)
  have wf1: "tracker_wf w1" unfolding w1_def by (rule security_one_wf [OF wf])
  have st: "tracker_step w1 w'" unfolding w'_def by (rule security_seq_step)
  let ?sp = "\<lambda>j. session_packets xxh w' j (Suc k) bs"
  let ?SP = "\<lambda>j. session_packets xxh w' j k (b # bs)"
  from Cons.IH [OF wf1, of "Suc k"]
  have ih_out: "fst (security_seq xxh clk (Suc k) w1 bs) = map (security_result xxh w') bs"
    and ih: "\<And>j. j < n_sessions w' \<Longrightarrow>
        sessions w' ! j = touch_all clk (?sp j)
          (if j < n_sessions w1 then sessions w1 ! j
           else fresh_session (created_at clk (fst (hd (?sp j)))) (snd (hd (?sp j))))"
    unfolding w'_def by simp_all
  have keep: "session_hash w' k = Some i" if "session_hash w1 k = Some i" for k i
    using st that by (simp add: tracker_step_def)
  have goal: "fst (security_one xxh ?tc ?tu w b) = security_result xxh w' b
     \<and> (\<forall>j < n_sessions w'.
           sessions w' ! j = touch_all clk (?SP j)
             (if j < n_sessions w then sessions w ! j
              else fresh_session (created_at clk (fst (hd (?SP j)))) (snd (hd (?SP j)))))"
  proof (cases "session_hash w ?k")
    case (Some i)
    note one = security_one_hit [OF Some, of ?tc ?tu]
    from wf Some have i0: "i < n_sessions w"
      unfolding tracker_wf_def by blast
    moreover from wf have "n_sessions w \<le> length (sessions w)"
      by (simp add: tracker_wf_def)
    ultimately have i: "i < n_sessions w" "i < length (sessions w)"
      by simp_all
    have n1: "n_sessions w1 = n_sessions w" and h1: "session_hash w1 = session_hash w"
      and s1: "sessions w1 = (sessions w)[i := session_touch ?tu (b_length_in_chain b)
                                                  (sessions w ! i)]"
      by (simp_all add: w1_def one)
    have k': "session_hash w' ?k = Some i" by (rule keep) (simp add: h1 Some)
    have a: "fst (security_one xxh ?tc ?tu w b) = security_result xxh w' b"
      by (simp add: one security_result_def k')
    have b: "sessions w' ! j = touch_all clk (?SP j)
             (if j < n_sessions w then sessions w ! j
              else fresh_session (created_at clk (fst (hd (?SP j)))) (snd (hd (?SP j))))"
      if j: "j < n_sessions w'" for j
    proof (cases "j = i")
      case True
      with i have "sessions w1 ! j = session_touch ?tu (b_length_in_chain b) (sessions w ! j)"
        by (simp add: s1)
      with ih [OF j] True i show ?thesis
        by (simp add: n1 session_packets_Cons k' touch_all_Cons)
    next
      case False
      then have "sessions w1 ! j = sessions w ! j" by (simp add: s1)
      with ih [OF j] False show ?thesis
        by (simp add: n1 session_packets_Cons k')
    qed
    from a b show ?thesis by blast
  next
    case None
    show ?thesis
    proof (cases "n_sessions w < length (sessions w)")
      case True
      note one = security_one_create [OF None True, of ?tc ?tu]
      let ?n = "n_sessions w"
      have n1: "n_sessions w1 = Suc ?n"
        and s1: "sessions w1 = (sessions w)[?n := session_touch ?tu (b_length_in_chain b)
                                                   (fresh_session ?tc b)]"
        and h1: "session_hash w1 ?k = Some ?n"
        by (simp_all add: w1_def one)
      have k': "session_hash w' ?k = Some ?n" by (rule keep) (rule h1)
      have a: "fst (security_one xxh ?tc ?tu w b) = security_result xxh w' b"
        by (simp add: one security_result_def k')
      have b: "sessions w' ! j = touch_all clk (?SP j)
               (if j < n_sessions w then sessions w ! j
                else fresh_session (created_at clk (fst (hd (?SP j)))) (snd (hd (?SP j))))"
        if j: "j < n_sessions w'" for j
      proof -
        consider "j < ?n" | "j = ?n" | "?n < j" by arith
        then show ?thesis
        proof cases
          case 1
          then have "sessions w1 ! j = sessions w ! j" by (simp add: s1)
          with ih [OF j] 1 show ?thesis
            by (simp add: n1 session_packets_Cons k')
        next
          case 2
          with True have "sessions w1 ! j
              = session_touch ?tu (b_length_in_chain b) (fresh_session ?tc b)"
            by (simp add: s1)
          with ih [OF j] 2 show ?thesis
            by (simp add: n1 session_packets_Cons k' touch_all_Cons)
        next
          case 3
          with ih [OF j] show ?thesis
            by (simp add: n1 session_packets_Cons k')
        qed
      qed
      from a b show ?thesis by blast
    next
      case False
      then have full: "length (sessions w) \<le> n_sessions w" by simp
      note one = security_one_full [OF None full, of ?tc ?tu]
      have w1: "w1 = w" by (simp add: w1_def one)
      from st full have "session_hash w' = session_hash w"
        by (simp add: tracker_step_def w1)
      with None have k': "session_hash w' ?k = None" by simp
      have a: "fst (security_one xxh ?tc ?tu w b) = security_result xxh w' b"
        by (simp add: one security_result_def k')
      have b: "sessions w' ! j = touch_all clk (?SP j)
               (if j < n_sessions w then sessions w ! j
                else fresh_session (created_at clk (fst (hd (?SP j)))) (snd (hd (?SP j))))"
        if j: "j < n_sessions w'" for j
        using ih [OF j] by (simp add: w1 session_packets_Cons k')
      from a b show ?thesis by blast
    qed
  qed
  show ?case
    unfolding w'_eq out_eq ih_out using goal by simp
qed

text \<open>Every new session has a buffer of the frame: the one that created it.\<close>

lemma security_seq_new_packets:
  assumes "tracker_wf w"
    and "n_sessions w \<le> j" and "j < n_sessions (snd (security_seq xxh clk k w bufs))"
  shows "session_packets xxh (snd (security_seq xxh clk k w bufs)) j k bufs \<noteq> []"
  using assms
proof (induction bufs arbitrary: k w)
  case Nil
  then show ?case by simp
next
  case (Cons b bs)
  note wf = Cons.prems(1)
  let ?k = "buffer_session_hash xxh b"
  let ?tc = "created_at clk k" and ?tu = "updated_at clk k"
  define w1 where "w1 = snd (security_one xxh ?tc ?tu w b)"
  define w' where "w' = snd (security_seq xxh clk (Suc k) w1 bs)"
  have w'_eq: "snd (security_seq xxh clk k w (b # bs)) = w'"
    by (simp add: w'_def w1_def)
  have wf1: "tracker_wf w1" unfolding w1_def by (rule security_one_wf [OF wf])
  have st: "tracker_step w1 w'" unfolding w'_def by (rule security_seq_step)
  from Cons.prems(3) have j: "j < n_sessions w'" by (simp only: w'_eq)
  show ?case
  proof (cases "n_sessions w1 \<le> j")
    case True
    from Cons.IH [OF wf1 True, of "Suc k"] j have "session_packets xxh w' j (Suc k) bs \<noteq> []"
      by (simp add: w'_def)
    then show ?thesis
      unfolding w'_eq by (simp add: session_packets_Cons)
  next
    case False
    then have lt: "j < n_sessions w1" by simp
    have "session_hash w1 ?k = Some j"
    proof (cases "session_hash w ?k")
      case (Some i)
      from security_one_hit [OF Some, of ?tc ?tu] have "n_sessions w1 = n_sessions w"
        by (simp add: w1_def)
      with lt Cons.prems(2) show ?thesis by simp
    next
      case None
      show ?thesis
      proof (cases "n_sessions w < length (sessions w)")
        case True
        from security_one_create [OF None True, of ?tc ?tu]
        have "n_sessions w1 = Suc (n_sessions w)" "session_hash w1 ?k = Some (n_sessions w)"
          by (simp_all add: w1_def)
        with lt Cons.prems(2) show ?thesis by simp
      next
        case False
        then have "length (sessions w) \<le> n_sessions w" by simp
        from security_one_full [OF None this, of ?tc ?tu] have "w1 = w"
          by (simp add: w1_def)
        with lt Cons.prems(2) show ?thesis by simp
      qed
    qed
    with st have "session_hash w' ?k = Some j" by (simp add: tracker_step_def)
    then show ?thesis
      unfolding w'_eq by (simp add: session_packets_Cons)
  qed
qed

text \<open>What a run of statistics updates does to each field of a session.\<close>

lemma touch_all_fields:
  "s_packets_fwd (touch_all clk ps s) = s_packets_fwd s + of_nat (length ps)"
  "s_bytes_fwd (touch_all clk ps s)
     = s_bytes_fwd s + sum_list (map (\<lambda>p. ucast (b_length_in_chain (snd p))) ps)"
  "s_last_active (touch_all clk ps s)
     = (if ps = [] then s_last_active s else updated_at clk (fst (last ps)))"
  "s_state (touch_all clk ps s) = s_state s"
  "s_packets_rev (touch_all clk ps s) = s_packets_rev s"
  "s_bytes_rev (touch_all clk ps s) = s_bytes_rev s"
  "stored_tuple (touch_all clk ps s) = stored_tuple s"
proof -
  show "s_packets_fwd (touch_all clk ps s) = s_packets_fwd s + of_nat (length ps)"
    by (induction ps arbitrary: s) (simp_all add: touch_all_def session_touch_def)
  show "s_bytes_fwd (touch_all clk ps s)
     = s_bytes_fwd s + sum_list (map (\<lambda>p. ucast (b_length_in_chain (snd p))) ps)"
    by (induction ps arbitrary: s) (simp_all add: touch_all_def session_touch_def)
  show "s_last_active (touch_all clk ps s)
     = (if ps = [] then s_last_active s else updated_at clk (fst (last ps)))"
    by (induction ps arbitrary: s) (simp_all add: touch_all_def session_touch_def)
  show "s_state (touch_all clk ps s) = s_state s"
    by (induction ps arbitrary: s) (simp_all add: touch_all_def session_touch_def)
  show "s_packets_rev (touch_all clk ps s) = s_packets_rev s"
    by (induction ps arbitrary: s) (simp_all add: touch_all_def session_touch_def)
  show "s_bytes_rev (touch_all clk ps s) = s_bytes_rev s"
    by (induction ps arbitrary: s) (simp_all add: touch_all_def session_touch_def)
  show "stored_tuple (touch_all clk ps s) = stored_tuple s"
    by (induction ps arbitrary: s)
      (simp_all add: touch_all_def session_touch_def stored_tuple_def)
qed

lemma fresh_session_fields:
  "s_packets_fwd (fresh_session now b) = 0"
  "s_bytes_fwd (fresh_session now b) = 0"
  "s_last_active (fresh_session now b) = now"
  "s_state (fresh_session now b) = OPENSASE_SESSION_NEW"
  "s_packets_rev (fresh_session now b) = 0"
  "s_bytes_rev (fresh_session now b) = 0"
  "stored_tuple (fresh_session now b) = session_tuple b"
  by (simp_all add: fresh_session_def session_zero_def stored_tuple_def session_tuple_def)

text \<open>The node is the frame loops and the packet count.\<close>

lemma security_node_seq:
  assumes "tracker_wf w"
  shows "fst (opensase_security_node xxh clk w bufs) = fst (security_seq xxh clk 0 w bufs)"
    and "sessions (snd (opensase_security_node xxh clk w bufs))
           = sessions (snd (security_seq xxh clk 0 w bufs))"
    and "n_sessions (snd (opensase_security_node xxh clk w bufs))
           = n_sessions (snd (security_seq xxh clk 0 w bufs))"
    and "session_hash (snd (opensase_security_node xxh clk w bufs))
           = session_hash (snd (security_seq xxh clk 0 w bufs))"
  by (simp_all add: opensase_security_node_def security_frame_seq [OF assms] split_def Let_def)

lemma security_node_wf:
  assumes "tracker_wf w"
  shows "tracker_wf (snd (opensase_security_node xxh clk w bufs))"
  using security_seq_wf [OF assms, of xxh clk 0 bufs]
  by (simp add: tracker_wf_def security_node_seq [OF assms])

lemma tracker_wf_init:
  "n_sessions w = 0 \<Longrightarrow> session_hash w = Map.empty \<Longrightarrow> tracker_wf w"
  by (simp add: tracker_wf_def)





text \<open>
  Claim C2, as amended.  Take a frame that the session tracker processes from a
  well-formed worker \<open>w\<close> (session count within the capacity, every index of the session
  hash below the count), leaving the worker \<open>w'\<close>, which is well-formed again.  Every
  buffer whose key is in the session hash of \<open>w'\<close> leaves with that session's index and
  goes to the policy node; a buffer whose key is not there is dropped.  For every
  session of \<open>w'\<close>: \<open>packets_fwd\<close> has grown by the number of the frame's buffers with that
  index and \<open>bytes_fwd\<close> by their total length, from zero if the session is new;
  \<open>last_active\<close> is the clock reading of the statistics update of the last such buffer,
  and what it was if the session is old and has no such buffer; the state is what it was, \<open>new\<close> for a new session; the reverse counters are
  what they were, zero for a new session; the stored 5-tuple is what it was, and for a
  new session that of the first buffer of the frame with that index, of which there is
  one.  The state of a session is never advanced: reverse-direction traffic and the TCP
  flags have no effect on it.
\<close>

theorem session_tracker_update:
  fixes xxh :: "u64 \<Rightarrow> u64" and clk :: frame_clock and w :: opensase_worker
    and bufs :: "vlib_buffer list"
  assumes wf: "tracker_wf w"
  defines "w' \<equiv> snd (opensase_security_node xxh clk w bufs)"
  shows "tracker_wf w'
   \<and> fst (opensase_security_node xxh clk w bufs) = map (security_result xxh w') bufs
   \<and> (\<forall>j < n_sessions w'.
        s_packets_fwd (sessions w' ! j)
          = (if j < n_sessions w then s_packets_fwd (sessions w ! j) else 0)
            + of_nat (length (session_packets xxh w' j 0 bufs))
        \<and> s_bytes_fwd (sessions w' ! j)
          = (if j < n_sessions w then s_bytes_fwd (sessions w ! j) else 0)
            + sum_list (map (\<lambda>p. ucast (b_length_in_chain (snd p)))
                         (session_packets xxh w' j 0 bufs))
        \<and> s_last_active (sessions w' ! j)
          = (if j < n_sessions w \<and> session_packets xxh w' j 0 bufs = []
             then s_last_active (sessions w ! j)
             else updated_at clk (fst (last (session_packets xxh w' j 0 bufs))))
        \<and> s_state (sessions w' ! j)
          = (if j < n_sessions w then s_state (sessions w ! j) else OPENSASE_SESSION_NEW)
        \<and> s_packets_rev (sessions w' ! j)
          = (if j < n_sessions w then s_packets_rev (sessions w ! j) else 0)
        \<and> s_bytes_rev (sessions w' ! j)
          = (if j < n_sessions w then s_bytes_rev (sessions w ! j) else 0)
        \<and> stored_tuple (sessions w' ! j)
          = (if j < n_sessions w then stored_tuple (sessions w ! j)
             else session_tuple (snd (hd (session_packets xxh w' j 0 bufs))))
        \<and> (j < n_sessions w \<or> session_packets xxh w' j 0 bufs \<noteq> []))"
proof -
  define ws where "ws = snd (security_seq xxh clk 0 w bufs)"
  note nd = security_node_seq [OF wf, of xxh clk bufs]
  have n: "n_sessions w' = n_sessions ws" and s: "sessions w' = sessions ws"
    and h: "session_hash w' = session_hash ws"
    by (simp_all add: w'_def ws_def nd)
  have sp: "session_packets xxh w' j 0 bufs = session_packets xxh ws j 0 bufs" for j
    by (simp add: session_packets_def h)
  have sr: "security_result xxh w' = security_result xxh ws"
    by (rule ext) (simp add: security_result_def h)
  from security_seq_sessions [OF wf, of xxh clk 0 bufs]
  have out: "fst (security_seq xxh clk 0 w bufs) = map (security_result xxh ws) bufs"
    and ses: "\<And>j. j < n_sessions ws \<Longrightarrow>
        sessions ws ! j = touch_all clk (session_packets xxh ws j 0 bufs)
          (if j < n_sessions w then sessions w ! j
           else fresh_session (created_at clk (fst (hd (session_packets xxh ws j 0 bufs))))
                  (snd (hd (session_packets xxh ws j 0 bufs))))"
    unfolding ws_def by simp_all
  have a: "tracker_wf w'"
    unfolding w'_def by (rule security_node_wf [OF wf])
  have b: "fst (opensase_security_node xxh clk w bufs) = map (security_result xxh w') bufs"
    by (simp add: nd out sr)
  have c: "s_packets_fwd (sessions w' ! j)
          = (if j < n_sessions w then s_packets_fwd (sessions w ! j) else 0)
            + of_nat (length (session_packets xxh w' j 0 bufs))
        \<and> s_bytes_fwd (sessions w' ! j)
          = (if j < n_sessions w then s_bytes_fwd (sessions w ! j) else 0)
            + sum_list (map (\<lambda>p. ucast (b_length_in_chain (snd p)))
                         (session_packets xxh w' j 0 bufs))
        \<and> s_last_active (sessions w' ! j)
          = (if j < n_sessions w \<and> session_packets xxh w' j 0 bufs = []
             then s_last_active (sessions w ! j)
             else updated_at clk (fst (last (session_packets xxh w' j 0 bufs))))
        \<and> s_state (sessions w' ! j)
          = (if j < n_sessions w then s_state (sessions w ! j) else OPENSASE_SESSION_NEW)
        \<and> s_packets_rev (sessions w' ! j)
          = (if j < n_sessions w then s_packets_rev (sessions w ! j) else 0)
        \<and> s_bytes_rev (sessions w' ! j)
          = (if j < n_sessions w then s_bytes_rev (sessions w ! j) else 0)
        \<and> stored_tuple (sessions w' ! j)
          = (if j < n_sessions w then stored_tuple (sessions w ! j)
             else session_tuple (snd (hd (session_packets xxh w' j 0 bufs))))
        \<and> (j < n_sessions w \<or> session_packets xxh w' j 0 bufs \<noteq> [])"
    if j: "j < n_sessions w'" for j
  proof (cases "j < n_sessions w")
    case True
    from j have "j < n_sessions ws" by (simp add: n)
    from ses [OF this] True show ?thesis
      by (simp add: s sp touch_all_fields)
  next
    case False
    from j have jj: "j < n_sessions ws" by (simp add: n)
    from False have "n_sessions w \<le> j" by simp
    from security_seq_new_packets [OF wf this, of xxh clk 0 bufs] jj
    have ne: "session_packets xxh ws j 0 bufs \<noteq> []" by (simp add: ws_def)
    from ses [OF jj] False ne show ?thesis
      by (simp add: s sp touch_all_fields fresh_session_fields)
  qed
  from a b c show ?thesis by blast
qed

lemmas ex_tracker_eval =
  opensase_security_node_def security_lookup_def security_update_def security_out_def
  session_touch_def buffer_session_hash_def opensase_session_lookup_or_create_def
  opensase_session_hash_def flow_key_def extract_ports_def session_zero_def
  ex_worker_def ex_buf_def ex_buf2_def ex_reverse_def ex_fin_def ex_hdr_def ex_opaque_def
  xxh_example_def clib_net_to_host_u16_def clib_host_to_net_u16_def clib_byte_swap_u16_def
  ip4_addr_def IP_PROTOCOL_TCP_def IP_PROTOCOL_UDP_def OPENSASE_QOS_DEFAULT_def
  OPENSASE_SESSION_NEW_def session_tuple_def stored_tuple_def session_packets_def
  ex_clock_def

theorem session_tracker_update_witness:
  "tracker_wf ex_worker
   \<and> tracker_wf (snd (opensase_security_node xxh_example ex_clock ex_worker
                        [ex_buf, ex_buf2, ex_buf, ex_buf, ex_buf2]))
   \<and> (n_sessions (snd (opensase_security_node xxh_example ex_clock ex_worker
                        [ex_buf, ex_buf2, ex_buf, ex_buf, ex_buf2])) = 2
     \<and> map (op_session_idx \<circ> b_opaque2 \<circ> fst)
        (fst (opensase_security_node xxh_example ex_clock ex_worker
                [ex_buf, ex_buf2, ex_buf, ex_buf, ex_buf2])) = [0, 1, 0, 0, 1]
     \<and> s_packets_fwd (sessions (snd (opensase_security_node xxh_example ex_clock ex_worker
                        [ex_buf, ex_buf2, ex_buf, ex_buf, ex_buf2])) ! 0) = 3
     \<and> s_bytes_fwd (sessions (snd (opensase_security_node xxh_example ex_clock ex_worker
                        [ex_buf, ex_buf2, ex_buf, ex_buf, ex_buf2])) ! 0) = 120
     \<and> s_packets_fwd (sessions (snd (opensase_security_node xxh_example ex_clock ex_worker
                        [ex_buf, ex_buf2, ex_buf, ex_buf, ex_buf2])) ! 1) = 2
     \<and> s_last_active (sessions (snd (opensase_security_node xxh_example ex_clock ex_worker
                        [ex_buf, ex_buf2, ex_buf, ex_buf, ex_buf2])) ! 1) = 9)"
proof -
  have wf: "tracker_wf ex_worker"
    by (simp add: tracker_wf_def ex_worker_def)
  note t = session_tracker_update [OF wf, of xxh_example ex_clock
      "[ex_buf, ex_buf2, ex_buf, ex_buf, ex_buf2]"]
  from t have a: "tracker_wf (snd (opensase_security_node xxh_example ex_clock ex_worker
                        [ex_buf, ex_buf2, ex_buf, ex_buf, ex_buf2]))"
    by (rule conjunct1)
  have b: "n_sessions (snd (opensase_security_node xxh_example ex_clock ex_worker
                        [ex_buf, ex_buf2, ex_buf, ex_buf, ex_buf2])) = 2
     \<and> map (op_session_idx \<circ> b_opaque2 \<circ> fst)
        (fst (opensase_security_node xxh_example ex_clock ex_worker
                [ex_buf, ex_buf2, ex_buf, ex_buf, ex_buf2])) = [0, 1, 0, 0, 1]
     \<and> s_packets_fwd (sessions (snd (opensase_security_node xxh_example ex_clock ex_worker
                        [ex_buf, ex_buf2, ex_buf, ex_buf, ex_buf2])) ! 0) = 3
     \<and> s_bytes_fwd (sessions (snd (opensase_security_node xxh_example ex_clock ex_worker
                        [ex_buf, ex_buf2, ex_buf, ex_buf, ex_buf2])) ! 0) = 120
     \<and> s_packets_fwd (sessions (snd (opensase_security_node xxh_example ex_clock ex_worker
                        [ex_buf, ex_buf2, ex_buf, ex_buf, ex_buf2])) ! 1) = 2
     \<and> s_last_active (sessions (snd (opensase_security_node xxh_example ex_clock ex_worker
                        [ex_buf, ex_buf2, ex_buf, ex_buf, ex_buf2])) ! 1) = 9"
    by (simp add: ex_tracker_eval Let_def)
  from wf a b show ?thesis by (intro conjI) simp_all
qed

text \<open>
  The claim as stated fails on the state: after a SYN of the flow of \<open>ex_buf\<close>, a
  SYN-ACK in the reverse direction, another segment of the flow and a FIN, in one frame,
  the session of the flow is still in state new, with three packets counted forward and
  none in reverse, and the reverse direction has a session of its own, in state new too.
\<close>

theorem session_state_never_advances:
  "session_tuple ex_reverse
     = (dst_address ex_hdr, src_address ex_hdr, 443, 33000, IP_PROTOCOL_TCP)
   \<and> session_tuple ex_buf
     = (src_address ex_hdr, dst_address ex_hdr, 33000, 443, IP_PROTOCOL_TCP)
   \<and> b_tcp_flags ex_reverse = 0x12 \<and> b_tcp_flags ex_fin = 0x11
   \<and> n_sessions (snd (opensase_security_node xxh_example ex_clock ex_worker
                        [ex_buf, ex_reverse, ex_buf, ex_fin])) = 2
   \<and> stored_tuple (sessions (snd (opensase_security_node xxh_example ex_clock ex_worker
                        [ex_buf, ex_reverse, ex_buf, ex_fin])) ! 0) = session_tuple ex_buf
   \<and> stored_tuple (sessions (snd (opensase_security_node xxh_example ex_clock ex_worker
                        [ex_buf, ex_reverse, ex_buf, ex_fin])) ! 1) = session_tuple ex_reverse
   \<and> s_state (sessions (snd (opensase_security_node xxh_example ex_clock ex_worker
                        [ex_buf, ex_reverse, ex_buf, ex_fin])) ! 0) = OPENSASE_SESSION_NEW
   \<and> s_state (sessions (snd (opensase_security_node xxh_example ex_clock ex_worker
                        [ex_buf, ex_reverse, ex_buf, ex_fin])) ! 1) = OPENSASE_SESSION_NEW
   \<and> s_packets_fwd (sessions (snd (opensase_security_node xxh_example ex_clock ex_worker
                        [ex_buf, ex_reverse, ex_buf, ex_fin])) ! 0) = 3
   \<and> s_packets_rev (sessions (snd (opensase_security_node xxh_example ex_clock ex_worker
                        [ex_buf, ex_reverse, ex_buf, ex_fin])) ! 0) = 0
   \<and> OPENSASE_SESSION_NEW \<noteq> OPENSASE_SESSION_ESTABLISHED
   \<and> OPENSASE_SESSION_NEW \<noteq> OPENSASE_SESSION_CLOSING"
  by (simp add: ex_tracker_eval OPENSASE_SESSION_ESTABLISHED_def OPENSASE_SESSION_CLOSING_def
      Let_def)

section \<open>Entries are keyed by the hash alone\<close>

text \<open>
  Two different flows with one key, whatever the hash function: the keys of \<open>ex_buf\<close>
  (10.1.0.5:33000) and \<open>ex_collide\<close> (10.1.0.6:33768), to the same server and port, are
  equal before hashing.
\<close>

lemma ex_collide_same_key:
  "session_tuple ex_collide \<noteq> session_tuple ex_buf"
  "buffer_session_hash xxh ex_collide = buffer_session_hash xxh ex_buf"
  "nat_buffer_key xxh ex_collide = nat_buffer_key xxh ex_buf"
  by (simp_all add: session_tuple_def buffer_session_hash_def nat_buffer_key_def
      nat_hash_key_def opensase_session_hash_def flow_key_def extract_ports_def
      ex_collide_def ex_buf_def ex_hdr_def ip4_addr_def IP_PROTOCOL_TCP_def
      clib_net_to_host_u16_def clib_host_to_net_u16_def clib_byte_swap_u16_def)

text \<open>The lookups see a buffer through its key only.\<close>

lemma security_lookup_by_hash:
  assumes "buffer_session_hash xxh b1 = buffer_session_hash xxh b2"
  shows "fst (security_lookup xxh now w b1) = fst (security_lookup xxh now w b2)"
  using assms by (simp add: security_lookup_eq split: option.splits)

lemma nat_lookup_or_create_by_key:
  assumes "nat_buffer_key xxh b1 = nat_buffer_key xxh b2"
  shows "fst (nat_lookup_or_create xxh now w b1) = fst (nat_lookup_or_create xxh now w b2)"
  using assms
  by (simp add: nat_lookup_or_create_def nat_lookup_def nat_buffer_key_def
      nat_create_mapping_def Let_def split_def split: option.splits)

text \<open>
  Claim C9.  The session tracker and the NAT table find their entries by the 64-bit
  hash of the 5-tuple alone.  In every state the lookup returns the same entry for two
  buffers with the same hash.  In a frame of the session tracker from a well-formed
  worker, two buffers with different 5-tuples and the same hash leave with the same
  session index and the same next node; when they are forwarded, both are among the
  buffers counted into that one session, whose \<open>packets_fwd\<close> grows by the number of
  those buffers and whose stored 5-tuple is not that of both.  In a frame of the NAT
  node from a well-formed NAT worker, two buffers with the same key are translated
  with one and the same mapping.
\<close>

theorem hash_collision_shares_entry:
  fixes xxh :: "u64 \<Rightarrow> u64" and clk :: frame_clock and now tq :: f64
    and w wq :: opensase_worker
    and nw nwq :: nat_worker and bufs nbufs :: "vlib_buffer list"
  assumes wf: "tracker_wf w" and nwf: "nat_wf nw"
    and i: "i < length bufs" and l: "l < length bufs"
    and d: "session_tuple (bufs ! i) \<noteq> session_tuple (bufs ! l)"
    and hs: "buffer_session_hash xxh (bufs ! i) = buffer_session_hash xxh (bufs ! l)"
    and p: "p < length nbufs" and q: "q < length nbufs"
    and hn: "nat_buffer_key xxh (nbufs ! p) = nat_buffer_key xxh (nbufs ! q)"
  defines "outs \<equiv> fst (opensase_security_node xxh clk w bufs)"
    and "w' \<equiv> snd (opensase_security_node xxh clk w bufs)"
    and "nouts \<equiv> fst (opensase_nat_node xxh now nw nbufs)"
    and "nw' \<equiv> snd (opensase_nat_node xxh now nw nbufs)"
  shows "fst (security_lookup xxh tq wq (bufs ! i)) = fst (security_lookup xxh tq wq (bufs ! l))
   \<and> fst (nat_lookup_or_create xxh tq nwq (nbufs ! p))
       = fst (nat_lookup_or_create xxh tq nwq (nbufs ! q))
   \<and> snd (outs ! i) = snd (outs ! l)
   \<and> op_session_idx (b_opaque2 (fst (outs ! i))) = op_session_idx (b_opaque2 (fst (outs ! l)))
   \<and> (\<forall>j. session_hash w' (buffer_session_hash xxh (bufs ! i)) = Some j \<longrightarrow>
          j < n_sessions w'
          \<and> snd (outs ! i) = OPENSASE_SECURITY_NEXT_POLICY
          \<and> op_session_idx (b_opaque2 (fst (outs ! i))) = of_nat j
          \<and> (i, bufs ! i) \<in> set (session_packets xxh w' j 0 bufs)
          \<and> (l, bufs ! l) \<in> set (session_packets xxh w' j 0 bufs)
          \<and> s_packets_fwd (sessions w' ! j)
              = (if j < n_sessions w then s_packets_fwd (sessions w ! j) else 0)
                + of_nat (length (session_packets xxh w' j 0 bufs))
          \<and> (stored_tuple (sessions w' ! j) \<noteq> session_tuple (bufs ! i)
               \<or> stored_tuple (sessions w' ! j) \<noteq> session_tuple (bufs ! l)))
   \<and> (session_hash w' (buffer_session_hash xxh (bufs ! i)) = None \<longrightarrow>
          snd (outs ! i) = OPENSASE_SECURITY_NEXT_DROP)
   \<and> (\<exists>j < length (mappings nw').
          mapping_hash nw' (nat_buffer_key xxh (nbufs ! p)) = Some j
          \<and> nouts ! p = (nat_translate (nbufs ! p) (mappings nw' ! j), OPENSASE_NAT_NEXT_ENCRYPT)
          \<and> nouts ! q = (nat_translate (nbufs ! q) (mappings nw' ! j), OPENSASE_NAT_NEXT_ENCRYPT))"
proof -
  let ?k = "buffer_session_hash xxh (bufs ! i)"
  define ws where "ws = snd (security_seq xxh clk 0 w bufs)"
  note nd = security_node_seq [OF wf, of xxh clk bufs]
  have n: "n_sessions w' = n_sessions ws" and s: "sessions w' = sessions ws"
    and h: "session_hash w' = session_hash ws"
    by (simp_all add: w'_def ws_def nd)
  have sp: "session_packets xxh w' j 0 bufs = session_packets xxh ws j 0 bufs" for j
    by (simp add: session_packets_def h)
  from security_seq_sessions [OF wf, of xxh clk 0 bufs]
  have out: "fst (security_seq xxh clk 0 w bufs) = map (security_result xxh ws) bufs"
    and ses: "\<And>j. j < n_sessions ws \<Longrightarrow>
        sessions ws ! j = touch_all clk (session_packets xxh ws j 0 bufs)
          (if j < n_sessions w then sessions w ! j
           else fresh_session (created_at clk (fst (hd (session_packets xxh ws j 0 bufs))))
                  (snd (hd (session_packets xxh ws j 0 bufs))))"
    unfolding ws_def by simp_all
  have wf': "tracker_wf ws" unfolding ws_def by (rule security_seq_wf [OF wf])
  have inz: "(n, b) \<in> set (zip [0 ..< length bufs] bufs) \<longleftrightarrow> n < length bufs \<and> b = bufs ! n"
    for n b
    using in_set_enumerate_eq [of "(n, b)" 0 bufs]
    by (auto simp add: enumerate_eq_zip)
  have oi: "outs ! i = security_result xxh ws (bufs ! i)"
    using i by (simp add: outs_def nd out)
  have ol: "outs ! l = security_result xxh ws (bufs ! l)"
    using l by (simp add: outs_def nd out)
  have a: "fst (security_lookup xxh tq wq (bufs ! i)) = fst (security_lookup xxh tq wq (bufs ! l))"
    by (rule security_lookup_by_hash [OF hs])
  have b: "fst (nat_lookup_or_create xxh tq nwq (nbufs ! p))
       = fst (nat_lookup_or_create xxh tq nwq (nbufs ! q))"
    by (rule nat_lookup_or_create_by_key [OF hn])
  have c: "snd (outs ! i) = snd (outs ! l)
     \<and> op_session_idx (b_opaque2 (fst (outs ! i))) = op_session_idx (b_opaque2 (fst (outs ! l)))"
    by (simp add: oi ol security_result_def hs [symmetric] split: option.splits)
  have e: "j < n_sessions w'
          \<and> snd (outs ! i) = OPENSASE_SECURITY_NEXT_POLICY
          \<and> op_session_idx (b_opaque2 (fst (outs ! i))) = of_nat j
          \<and> (i, bufs ! i) \<in> set (session_packets xxh w' j 0 bufs)
          \<and> (l, bufs ! l) \<in> set (session_packets xxh w' j 0 bufs)
          \<and> s_packets_fwd (sessions w' ! j)
              = (if j < n_sessions w then s_packets_fwd (sessions w ! j) else 0)
                + of_nat (length (session_packets xxh w' j 0 bufs))
          \<and> (stored_tuple (sessions w' ! j) \<noteq> session_tuple (bufs ! i)
               \<or> stored_tuple (sessions w' ! j) \<noteq> session_tuple (bufs ! l))"
    if hj: "session_hash w' ?k = Some j" for j
  proof -
    from hj have hw: "session_hash ws ?k = Some j" by (simp add: h)
    with wf' have jn: "j < n_sessions ws" unfolding tracker_wf_def by blast
    have m1: "(i, bufs ! i) \<in> set (session_packets xxh ws j 0 bufs)"
      using i hw by (simp add: session_packets_def inz)
    have m2: "(l, bufs ! l) \<in> set (session_packets xxh ws j 0 bufs)"
      using l hw hs by (simp add: session_packets_def inz)
    have cnt: "s_packets_fwd (sessions ws ! j)
              = (if j < n_sessions w then s_packets_fwd (sessions w ! j) else 0)
                + of_nat (length (session_packets xxh ws j 0 bufs))"
      by (simp add: ses [OF jn] touch_all_fields fresh_session_fields)
    from d have "stored_tuple (sessions ws ! j) \<noteq> session_tuple (bufs ! i)
               \<or> stored_tuple (sessions ws ! j) \<noteq> session_tuple (bufs ! l)"
      by auto
    with jn m1 m2 cnt show ?thesis
      by (simp add: n s sp oi security_result_def hw)
  qed
  have f: "snd (outs ! i) = OPENSASE_SECURITY_NEXT_DROP" if "session_hash w' ?k = None"
    using that by (simp add: oi security_result_def h)
  have g: "\<exists>j < length (mappings nw').
          mapping_hash nw' (nat_buffer_key xxh (nbufs ! p)) = Some j
          \<and> nouts ! p = (nat_translate (nbufs ! p) (mappings nw' ! j), OPENSASE_NAT_NEXT_ENCRYPT)
          \<and> nouts ! q = (nat_translate (nbufs ! q) (mappings nw' ! j), OPENSASE_NAT_NEXT_ENCRYPT)"
  proof -
    from nat_node_outputs [OF nwf, of xxh now nbufs]
    have no: "nouts = map (nat_result xxh nw') nbufs" by (simp add: nouts_def nw'_def)
    from nat_node_step_wf [of nw xxh now nbufs] nwf have nwf': "nat_wf nw'"
      by (simp add: nw'_def)
    from no have len: "length nouts = length nbufs" by simp
    from nat_node_never_drops [of xxh now nw nbufs]
    have "\<forall>n < length nouts. snd (nouts ! n) = OPENSASE_NAT_NEXT_ENCRYPT"
      by (simp add: nouts_def list_all_length)
    with p len have "snd (nouts ! p) = OPENSASE_NAT_NEXT_ENCRYPT"
      by simp
    with p no have "mapping_hash nw' (nat_buffer_key xxh (nbufs ! p)) \<noteq> None"
      by (auto simp add: nat_result_def split: option.splits)
    then obtain j where j: "mapping_hash nw' (nat_buffer_key xxh (nbufs ! p)) = Some j"
      by auto
    with nwf' have "j < length (mappings nw')" unfolding nat_wf_def by blast
    moreover from p no j
    have "nouts ! p = (nat_translate (nbufs ! p) (mappings nw' ! j), OPENSASE_NAT_NEXT_ENCRYPT)"
      by (simp add: nat_result_def)
    moreover from q no j hn
    have "nouts ! q = (nat_translate (nbufs ! q) (mappings nw' ! j), OPENSASE_NAT_NEXT_ENCRYPT)"
      by (simp add: nat_result_def)
    ultimately show ?thesis using j by blast
  qed
  from a b c e f g show ?thesis by blast
qed

theorem hash_collision_shares_entry_witness:
  "tracker_wf ex_worker \<and> nat_wf ex_nat_worker
   \<and> session_tuple ([ex_buf, ex_collide] ! 0) \<noteq> session_tuple ([ex_buf, ex_collide] ! 1)
   \<and> buffer_session_hash xxh_example ([ex_buf, ex_collide] ! 0)
       = buffer_session_hash xxh_example ([ex_buf, ex_collide] ! 1)
   \<and> nat_buffer_key xxh_example ([ex_buf, ex_collide] ! 0)
       = nat_buffer_key xxh_example ([ex_buf, ex_collide] ! 1)
   \<and> op_session_idx (b_opaque2 (fst (fst (opensase_security_node xxh_example ex_clock ex_worker
                                             [ex_buf, ex_collide]) ! 0)))
       = op_session_idx (b_opaque2 (fst (fst (opensase_security_node xxh_example ex_clock ex_worker
                                               [ex_buf, ex_collide]) ! 1)))
   \<and> (s_packets_fwd (sessions (snd (opensase_security_node xxh_example ex_clock ex_worker
                                     [ex_buf, ex_collide])) ! 0) = 2
      \<and> s_bytes_fwd (sessions (snd (opensase_security_node xxh_example ex_clock ex_worker
                                     [ex_buf, ex_collide])) ! 0) = 100
      \<and> n_sessions (snd (opensase_security_node xxh_example ex_clock ex_worker
                            [ex_buf, ex_collide])) = 1
      \<and> stored_tuple (sessions (snd (opensase_security_node xxh_example ex_clock ex_worker
                                     [ex_buf, ex_collide])) ! 0) = session_tuple ex_buf
      \<and> length (mappings (snd (opensase_nat_node xxh_example 1 ex_nat_worker
                                  [ex_buf, ex_collide]))) = 1
      \<and> map (src_address \<circ> b_ip4 \<circ> fst)
            (fst (opensase_nat_node xxh_example 1 ex_nat_worker [ex_buf, ex_collide]))
          = [ip4_addr 198 51 100 4, ip4_addr 198 51 100 4]
      \<and> map (clib_net_to_host_u16 \<circ> b_ports0 \<circ> fst)
            (fst (opensase_nat_node xxh_example 1 ex_nat_worker [ex_buf, ex_collide]))
          = [10000, 10000])"
proof -
  have wf: "tracker_wf ex_worker"
    by (simp add: tracker_wf_def ex_worker_def)
  have nwf: "nat_wf ex_nat_worker"
    by (simp add: nat_wf_def ex_nat_worker_def)
  have d: "session_tuple ([ex_buf, ex_collide] ! 0) \<noteq> session_tuple ([ex_buf, ex_collide] ! 1)"
    using ex_collide_same_key(1) by simp
  have hs: "buffer_session_hash xxh_example ([ex_buf, ex_collide] ! 0)
       = buffer_session_hash xxh_example ([ex_buf, ex_collide] ! 1)"
    using ex_collide_same_key(2) [of xxh_example] by simp
  have hn: "nat_buffer_key xxh_example ([ex_buf, ex_collide] ! 0)
       = nat_buffer_key xxh_example ([ex_buf, ex_collide] ! 1)"
    using ex_collide_same_key(3) [of xxh_example] by simp
  have i: "0 < length [ex_buf, ex_collide]" and l: "1 < length [ex_buf, ex_collide]"
    by simp_all
  note t = hash_collision_shares_entry [OF wf nwf i l d hs i l hn,
      where clk = ex_clock and now = 1 and tq = 0 and wq = ex_worker
        and nwq = ex_nat_worker]
  from t have same: "op_session_idx (b_opaque2 (fst (fst (opensase_security_node xxh_example ex_clock
                                             ex_worker [ex_buf, ex_collide]) ! 0)))
       = op_session_idx (b_opaque2 (fst (fst (opensase_security_node xxh_example ex_clock ex_worker
                                               [ex_buf, ex_collide]) ! 1)))"
    by blast
  have ev: "s_packets_fwd (sessions (snd (opensase_security_node xxh_example ex_clock ex_worker
                                     [ex_buf, ex_collide])) ! 0) = 2
      \<and> s_bytes_fwd (sessions (snd (opensase_security_node xxh_example ex_clock ex_worker
                                     [ex_buf, ex_collide])) ! 0) = 100
      \<and> n_sessions (snd (opensase_security_node xxh_example ex_clock ex_worker
                            [ex_buf, ex_collide])) = 1
      \<and> stored_tuple (sessions (snd (opensase_security_node xxh_example ex_clock ex_worker
                                     [ex_buf, ex_collide])) ! 0) = session_tuple ex_buf
      \<and> length (mappings (snd (opensase_nat_node xxh_example 1 ex_nat_worker
                                  [ex_buf, ex_collide]))) = 1
      \<and> map (src_address \<circ> b_ip4 \<circ> fst)
            (fst (opensase_nat_node xxh_example 1 ex_nat_worker [ex_buf, ex_collide]))
          = [ip4_addr 198 51 100 4, ip4_addr 198 51 100 4]
      \<and> map (clib_net_to_host_u16 \<circ> b_ports0 \<circ> fst)
            (fst (opensase_nat_node xxh_example 1 ex_nat_worker [ex_buf, ex_collide]))
          = [10000, 10000]"
    by (simp add: ex_tracker_eval ex_nat_eval ex_collide_def Let_def)
  from wf nwf d hs hn same ev show ?thesis by (intro conjI) simp_all
qed


end
